theory Spec2Isabelle
  imports Main "HOL-Library.AList"
begin

section \<open>Strings of the runtime\<close>

text \<open>
  A JavaScript string is modelled as a \<^typ>\<open>string\<close>, a list of code units below 256.
  Every literal the runtime compares against (attribute names, enumeration members,
  \<open>required\<close>, \<open>optional\<close>, the comma) is ASCII, so the restriction to one byte per
  code unit leaves the parser's decisions as they are.

  \<open>String.prototype.trim\<close> removes white space and line terminators from both ends;
  below 256 these are TAB, LF, VT, FF, CR, SP and NBSP.
\<close>

definition is_js_space :: "char \<Rightarrow> bool" where
  "is_js_space c = (c \<in> set [CHR 0x09, CHR 0x0A, CHR 0x0B, CHR 0x0C, CHR 0x0D, CHR 0x20, CHR 0xA0])"

definition trim :: "string \<Rightarrow> string" where
  "trim s = rev (dropWhile is_js_space (rev (dropWhile is_js_space s)))"

text \<open>
  \<open>String.prototype.toLowerCase\<close>: the letters A to Z, and the Latin-1 capitals
  0xC0 to 0xDE without the multiplication sign 0xD7, move up by 32.
\<close>

definition lower_char :: "char \<Rightarrow> char" where
  "lower_char c =
     (let n = of_char c :: nat in
      if (65 \<le> n \<and> n \<le> 90) \<or> (192 \<le> n \<and> n \<le> 222 \<and> n \<noteq> 215)
      then char_of (n + 32) else c)"

definition toLowerCase :: "string \<Rightarrow> string" where
  "toLowerCase s = map lower_char s"

text \<open>
  \<open>s.split(d)\<close> for a one-character separator: always at least one part, the empty
  string giving one empty part.
\<close>

fun split :: "char \<Rightarrow> string \<Rightarrow> string list" where
  "split d [] = [[]]"
| "split d (c # cs) =
     (if c = d then [] # split d cs
      else (case split d cs of
              [] \<Rightarrow> [[c]]
            | p # ps \<Rightarrow> (c # p) # ps))"

text \<open>
  A number in a template literal: the decimal digits of a natural number, and a minus
  sign before them for a negative integer.
\<close>

definition digit_char :: "nat \<Rightarrow> char" where
  "digit_char n = char_of (48 + n)"

fun decimal :: "nat \<Rightarrow> string" where
  "decimal n = (if n < 10 then [digit_char n] else decimal (n div 10) @ [digit_char (n mod 10)])"

declare decimal.simps [simp del]

text \<open>Reading the digits back, used to show that \<open>decimal\<close> is injective.\<close>

definition undecimal :: "string \<Rightarrow> nat" where
  "undecimal s = foldl (\<lambda>a c. 10 * a + (of_char c - 48)) 0 s"

definition decimal_int :: "int \<Rightarrow> string" where
  "decimal_int i = (if i < 0 then ''-'' @ decimal (nat (- i)) else decimal (nat i))"

text \<open>\<open>x || undefined\<close> on an attribute value: the empty string is falsy.\<close>

definition truthy :: "string option \<Rightarrow> string option" where
  "truthy v = (case v of None \<Rightarrow> None | Some s \<Rightarrow> if s = [] then None else Some s)"

section \<open>JSON values and the document\<close>

text \<open>
  \<open>JSON.parse\<close> belongs to the platform, not to the repository: the functions below take
  it as the parameter \<open>JSON_parse\<close>, where \<open>None\<close> stands for the \<open>SyntaxError\<close> it
  throws. The runtime never inspects a number, so integers stand for them.
\<close>

datatype json =
    JNull
  | JBool bool
  | JNumber int
  | JString string
  | JArray "json list"
  | JObject "(string \<times> json) list"

fun typeof :: "json \<Rightarrow> string" where
  "typeof JNull = ''object''"
| "typeof (JBool b) = ''boolean''"
| "typeof (JNumber n) = ''number''"
| "typeof (JString s) = ''string''"
| "typeof (JArray xs) = ''object''"
| "typeof (JObject kvs) = ''object''"

text \<open>A property read \<open>parsed.k\<close> for the keys the runtime reads; \<open>None\<close> is \<open>undefined\<close>.\<close>

fun property :: "json \<Rightarrow> string \<Rightarrow> json option" where
  "property (JObject kvs) k = map_of kvs k"
| "property j k = None"

fun isArray :: "json \<Rightarrow> bool" where
  "isArray (JArray xs) = True"
| "isArray j = False"

text \<open>
  The document is a tree of elements. An element carries its lower-case tag name (which
  decides the \<open>instanceof HTMLInputElement\<close> tests), its attributes and the properties the
  runtime reads or writes. A live node is identified by its path from the root, so
  \<open>domEl === element\<close> is equality of paths. Text nodes are left out: only elements pass
  the \<open>instanceof HTMLElement\<close> tests of the registry.
\<close>

datatype js_file = JsFile string

record node_props =
  el_value :: string
  el_checked :: bool
  el_files :: "js_file list"
  textContent :: string

datatype dom_node =
  Element (localName: string) (attributes: "(string \<times> string) list") (props: node_props)
    (childNodes: "dom_node list")

type_synonym node_path = "nat list"

definition getAttribute :: "dom_node \<Rightarrow> string \<Rightarrow> string option" where
  "getAttribute el name = map_of (attributes el) name"

definition hasAttribute :: "dom_node \<Rightarrow> string \<Rightarrow> bool" where
  "hasAttribute el name = (getAttribute el name \<noteq> None)"

text \<open>
  The three shapes of selector the runtime builds: \<open>[data-sid]\<close>,
  \<open>[data-sid="<CSS.escape(id)>"]\<close> and \<open>script[type="application/sid+json"]\<close>. The
  selector string is modelled by what the platform's selector parser reads from it;
  \<open>CSS.escape\<close> exists so that the quoted value is read back as the identifier.
\<close>

datatype selector =
    HasAttr string
  | AttrEquals string string
  | TagAttrEquals string string string

fun matches :: "selector \<Rightarrow> dom_node \<Rightarrow> bool" where
  "matches (HasAttr a) el = hasAttribute el a"
| "matches (AttrEquals a v) el = (getAttribute el a = Some v)"
| "matches (TagAttrEquals t a v) el = (localName el = t \<and> getAttribute el a = Some v)"

text \<open>All elements of a subtree in document order (the root first), with their paths.\<close>

fun tree_order :: "dom_node \<Rightarrow> (node_path \<times> dom_node) list"
  and forest_order :: "nat \<Rightarrow> dom_node list \<Rightarrow> (node_path \<times> dom_node) list" where
  "tree_order (Element t a p cs) = ([], Element t a p cs) # forest_order 0 cs"
| "forest_order i [] = []"
| "forest_order i (c # cs) =
     map (\<lambda>(q, n). (i # q, n)) (tree_order c) @ forest_order (Suc i) cs"

record dom_document =
  documentElement :: dom_node
  dispatched :: "(node_path \<times> string \<times> bool \<times> bool) list"

text \<open>
  \<open>dispatched\<close> is the log of native dispatches in order: the target, the event type,
  and the \<open>bubbles\<close> and \<open>cancelable\<close> flags (\<open>el.click()\<close> is logged as the \<open>click\<close>
  event it fires). The page's listeners are not part of the repository; what they call
  back into the runtime appears as later events of a trace.
\<close>

definition querySelectorAll :: "dom_document \<Rightarrow> selector \<Rightarrow> (node_path \<times> dom_node) list" where
  "querySelectorAll doc sel = filter (\<lambda>(q, n). matches sel n) (tree_order (documentElement doc))"

definition querySelector :: "dom_document \<Rightarrow> selector \<Rightarrow> (node_path \<times> dom_node) option" where
  "querySelector doc sel = (case querySelectorAll doc sel of [] \<Rightarrow> None | x # xs \<Rightarrow> Some x)"

text \<open>\<open>node.querySelectorAll\<close> on an element searches its descendants, not the element itself.\<close>

definition descendantsMatching :: "dom_node \<Rightarrow> selector \<Rightarrow> dom_node list" where
  "descendantsMatching node sel =
     map snd (filter (\<lambda>(q, n). matches sel n) (forest_order 0 (childNodes node)))"

fun update_at :: "(dom_node \<Rightarrow> dom_node) \<Rightarrow> node_path \<Rightarrow> dom_node \<Rightarrow> dom_node" where
  "update_at f [] n = f n"
| "update_at f (i # q) (Element t a p cs) =
     Element t a p (if i < length cs then cs[i := update_at f q (cs ! i)] else cs)"

definition set_props :: "(node_props \<Rightarrow> node_props) \<Rightarrow> dom_node \<Rightarrow> dom_node" where
  "set_props f el = Element (localName el) (attributes el) (f (props el)) (childNodes el)"

definition dispatchEvent :: "node_path \<Rightarrow> string \<Rightarrow> bool \<Rightarrow> bool \<Rightarrow> dom_document \<Rightarrow> dom_document" where
  "dispatchEvent el ev bubbles cancelable doc =
     doc\<lparr> dispatched := dispatched doc @ [(el, ev, bubbles, cancelable)] \<rparr>"

section \<open>Attribute parser (attribute-parser.ts)\<close>

text \<open>
  The string-literal union types of the declarations (\<open>SIDActionType\<close>,
  \<open>SIDInputDataType\<close>, \<open>SIDTrackingType\<close>, the status types) are plain strings at run
  time; the parser narrows them with \<open>Array.prototype.includes\<close> on the three tables
  below. The \<open>console.warn\<close> diagnostics are not modelled.
\<close>

definition VALID_ACTION_TYPES :: "string list" where
  "VALID_ACTION_TYPES = [''click'', ''fill'', ''select'', ''check'', ''hover'', ''upload'']"

definition VALID_INPUT_DATA_TYPES :: "string list" where
  "VALID_INPUT_DATA_TYPES = [''text'', ''number'', ''date'', ''email'', ''password'', ''file'']"

definition VALID_TRACKING_TYPES :: "string list" where
  "VALID_TRACKING_TYPES = [''async'', ''navigation'', ''external'', ''none'']"

definition isValidActionType :: "string \<Rightarrow> bool" where
  "isValidActionType v = (v \<in> set VALID_ACTION_TYPES)"

definition isValidInputDataType :: "string \<Rightarrow> bool" where
  "isValidInputDataType v = (v \<in> set VALID_INPUT_DATA_TYPES)"

definition isValidTrackingType :: "string \<Rightarrow> bool" where
  "isValidTrackingType v = (v \<in> set VALID_TRACKING_TYPES)"

record InputDefinition =
  dataType :: string
  required :: bool
  options :: "string list option"

text \<open>
  \<open>parseInputAttribute\<close>: \<open>None\<close> is the source's \<open>null\<close>. The first guard rejects
  the empty string (the argument is a string by its type); the two parts are read only
  after the length check.
\<close>

definition parseInputAttribute :: "string \<Rightarrow> InputDefinition option" where
  "parseInputAttribute v =
     (if v = [] then None
      else
        let trimmedValue = trim v;
            parts = split CHR '','' trimmedValue
        in if length parts \<noteq> 2 then None
           else
             let dataTypePart = toLowerCase (trim (parts ! 0));
                 requiredPart = toLowerCase (trim (parts ! 1))
             in if \<not> isValidInputDataType dataTypePart then None
                else if requiredPart \<noteq> ''required'' \<and> requiredPart \<noteq> ''optional'' then None
                else Some \<lparr> dataType = dataTypePart,
                            required = (requiredPart = ''required''),
                            options = None \<rparr>)"

text \<open>The re-encoding of the round-trip property: \<open>dataType + "," + (required ? "required" : "optional")\<close>.\<close>

definition encodeInput :: "InputDefinition \<Rightarrow> string" where
  "encodeInput d = dataType d @ '','' @ (if required d then ''required'' else ''optional'')"

text \<open>
  \<open>parseHumanInputAttribute\<close> returns the parsed object itself when it has a string
  \<open>reason\<close> and a non-null object \<open>schema\<close>; a \<open>SyntaxError\<close> is caught.
\<close>

definition parseHumanInputAttribute :: "(string \<Rightarrow> json option) \<Rightarrow> string \<Rightarrow> json option" where
  "parseHumanInputAttribute JSON_parse v =
     (if v = [] then None
      else
        let trimmedValue = trim v
        in if trimmedValue = [] then None
           else (case JSON_parse trimmedValue of
                   None \<Rightarrow> None
                 | Some parsed \<Rightarrow>
                     if typeof parsed \<noteq> ''object'' \<or> parsed = JNull
                        \<or> (case property parsed ''reason'' of None \<Rightarrow> True | Some r \<Rightarrow> typeof r \<noteq> ''string'')
                        \<or> (case property parsed ''schema'' of None \<Rightarrow> True | Some sc \<Rightarrow> typeof sc \<noteq> ''object'')
                        \<or> property parsed ''schema'' = Some JNull
                     then None
                     else Some parsed))"

definition parseOptionsAttribute :: "string option \<Rightarrow> string list option" where
  "parseOptionsAttribute v =
     (case v of
        None \<Rightarrow> None
      | Some s \<Rightarrow>
          if s = [] then None
          else
            let trimmedValue = trim s
            in if trimmedValue = [] then None
               else
                 let opts = filter (\<lambda>opt. length opt > 0) (map trim (split CHR '','' trimmedValue))
                 in if length opts > 0 then Some opts else None)"

record ParsedAttributes =
  pa_id :: string
  pa_description :: string
  pa_descriptionLong :: "string option"
  pa_action :: string
  pa_input :: "InputDefinition option"
  pa_options :: "string list option"
  pa_tracking :: string
  pa_destination :: "string option"
  pa_humanInput :: "json option"
  pa_disabled :: bool
  pa_disabledDescription :: "string option"

definition parseAttributes :: "(string \<Rightarrow> json option) \<Rightarrow> dom_node \<Rightarrow> ParsedAttributes option" where
  "parseAttributes JSON_parse el =
     (case truthy (getAttribute el ''data-sid'') of
        None \<Rightarrow> None
      | Some ident \<Rightarrow>
          let description = (case getAttribute el ''data-sid-desc'' of None \<Rightarrow> [] | Some d \<Rightarrow> d);
              descriptionLong = truthy (getAttribute el ''data-sid-desc-long'');
              action =
                (case truthy (getAttribute el ''data-sid-action'') of
                   None \<Rightarrow> ''click''
                 | Some actionAttr \<Rightarrow>
                     let normalizedAction = toLowerCase (trim actionAttr)
                     in if isValidActionType normalizedAction then normalizedAction else ''click'');
              input0 =
                (case truthy (getAttribute el ''data-sid-input'') of
                   None \<Rightarrow> None
                 | Some inputAttr \<Rightarrow> parseInputAttribute inputAttr);
              opts = parseOptionsAttribute (getAttribute el ''data-sid-options'');
              input1 =
                (case (input0, opts) of
                   (Some i, Some os) \<Rightarrow> Some (i\<lparr> options := Some os \<rparr>)
                 | _ \<Rightarrow> input0);
              tracking =
                (case truthy (getAttribute el ''data-sid-tracking'') of
                   None \<Rightarrow> ''async''
                 | Some trackingAttr \<Rightarrow>
                     let normalizedTracking = toLowerCase (trim trackingAttr)
                     in if isValidTrackingType normalizedTracking then normalizedTracking else ''async'');
              destination = truthy (getAttribute el ''data-sid-destination'');
              humanInput =
                (case truthy (getAttribute el ''data-sid-human-input'') of
                   None \<Rightarrow> None
                 | Some humanInputAttr \<Rightarrow> parseHumanInputAttribute JSON_parse humanInputAttr);
              disabled = (getAttribute el ''data-sid-disabled'' = Some ''true'');
              disabledDescription = truthy (getAttribute el ''data-sid-disabled-desc'')
          in Some \<lparr> pa_id = ident, pa_description = description,
                    pa_descriptionLong = descriptionLong, pa_action = action, pa_input = input1,
                    pa_options = opts, pa_tracking = tracking, pa_destination = destination,
                    pa_humanInput = humanInput, pa_disabled = disabled,
                    pa_disabledDescription = disabledDescription \<rparr>)"

section \<open>Element registry (element-registry)\<close>

record ActionDefinition =
  ad_type :: string
  ad_input :: "InputDefinition option"
  ad_tracked :: bool
  ad_description :: string

record SIDElement =
  sid_id :: string
  sid_selector :: selector
  sid_description :: string
  sid_descriptionLong :: "string option"
  sid_actions :: "ActionDefinition list"
  sid_disabled :: bool
  sid_disabledDescription :: "string option"
  sid_humanInput :: "json option"

text \<open>
  The optional \<open>state\<close> field of the declared \<open>SIDElement\<close> is never written by the
  runtime and is left out.
\<close>

definition generateSelector :: "string \<Rightarrow> selector" where
  "generateSelector ident = AttrEquals ''data-sid'' ident"

definition isTracked :: "string \<Rightarrow> bool" where
  "isTracked tracking = (tracking \<noteq> ''none'')"

definition createActionDefinition :: "ParsedAttributes \<Rightarrow> ActionDefinition" where
  "createActionDefinition attrs =
     \<lparr> ad_type = pa_action attrs, ad_input = pa_input attrs,
       ad_tracked = isTracked (pa_tracking attrs), ad_description = pa_description attrs \<rparr>"

definition convertToSIDElement :: "ParsedAttributes \<Rightarrow> SIDElement" where
  "convertToSIDElement attrs =
     \<lparr> sid_id = pa_id attrs, sid_selector = generateSelector (pa_id attrs),
       sid_description = pa_description attrs, sid_descriptionLong = pa_descriptionLong attrs,
       sid_actions = [createActionDefinition attrs], sid_disabled = pa_disabled attrs,
       sid_disabledDescription = pa_disabledDescription attrs,
       sid_humanInput = pa_humanInput attrs \<rparr>"

text \<open>
  The registry's \<open>Map\<close> keeps insertion order, which the linear scan of
  \<open>handleAttributeChange\<close> follows: an association list, where \<open>AList.update\<close> is
  \<open>Map.set\<close> (an existing key keeps its place, a new one goes last) and
  \<open>AList.delete\<close> is \<open>Map.delete\<close>. \<open>observing\<close> says whether the mutation observer is
  installed.
\<close>

record ElementRegistry =
  elements :: "(string \<times> SIDElement) list"
  observing :: bool

definition parseElement :: "(string \<Rightarrow> json option) \<Rightarrow> dom_node \<Rightarrow> SIDElement option" where
  "parseElement JSON_parse el =
     (case parseAttributes JSON_parse el of
        None \<Rightarrow> None
      | Some attrs \<Rightarrow> Some (convertToSIDElement attrs))"

text \<open>
  The block every scan and callback repeats: \<open>const sidElement = this.parseElement(el);
  if (sidElement) this.elements.set(sidElement.id, sidElement)\<close>.
\<close>

definition parseAndSet :: "(string \<Rightarrow> json option) \<Rightarrow> dom_node \<Rightarrow> ElementRegistry \<Rightarrow> ElementRegistry" where
  "parseAndSet JSON_parse el r =
     (case parseElement JSON_parse el of
        None \<Rightarrow> r
      | Some sidElement \<Rightarrow> r\<lparr> elements := AList.update (sid_id sidElement) sidElement (elements r) \<rparr>)"

definition scanDocument :: "(string \<Rightarrow> json option) \<Rightarrow> dom_document \<Rightarrow> ElementRegistry \<Rightarrow> ElementRegistry" where
  "scanDocument JSON_parse doc r =
     fold (parseAndSet JSON_parse) (map snd (querySelectorAll doc (HasAttr ''data-sid'')))
       (r\<lparr> elements := [] \<rparr>)"

definition startObserving :: "ElementRegistry \<Rightarrow> ElementRegistry" where
  "startObserving r = (if observing r then r else r\<lparr> observing := True \<rparr>)"

definition ElementRegistry_new :: "(string \<Rightarrow> json option) \<Rightarrow> dom_document \<Rightarrow> bool \<Rightarrow> ElementRegistry" where
  "ElementRegistry_new JSON_parse doc observeDOM =
     (let r = scanDocument JSON_parse doc \<lparr> elements = [], observing = False \<rparr>
      in if observeDOM then startObserving r else r)"

definition getAll :: "ElementRegistry \<Rightarrow> SIDElement list" where
  "getAll r = map snd (elements r)"

definition registry_get :: "ElementRegistry \<Rightarrow> string \<Rightarrow> SIDElement option" where
  "registry_get r ident = map_of (elements r) ident"

definition handleAddedNode :: "(string \<Rightarrow> json option) \<Rightarrow> dom_node \<Rightarrow> ElementRegistry \<Rightarrow> ElementRegistry" where
  "handleAddedNode JSON_parse node r =
     (let r1 = (if hasAttribute node ''data-sid'' then parseAndSet JSON_parse node r else r)
      in fold (parseAndSet JSON_parse) (descendantsMatching node (HasAttr ''data-sid'')) r1)"

definition deleteById :: "dom_node \<Rightarrow> ElementRegistry \<Rightarrow> ElementRegistry" where
  "deleteById el r =
     (case truthy (getAttribute el ''data-sid'') of
        None \<Rightarrow> r
      | Some ident \<Rightarrow> r\<lparr> elements := AList.delete ident (elements r) \<rparr>)"

definition handleRemovedNode :: "dom_node \<Rightarrow> ElementRegistry \<Rightarrow> ElementRegistry" where
  "handleRemovedNode node r =
     fold deleteById (descendantsMatching node (HasAttr ''data-sid'')) (deleteById node r)"

text \<open>
  The linear scan after \<open>data-sid\<close> was removed from a node: the first entry, in the
  map's order, whose selector resolves to the mutated node. \<open>target\<close> is the path of
  the mutated node, or \<open>None\<close> when it is no longer in the document.
\<close>

fun findStale :: "dom_document \<Rightarrow> node_path option \<Rightarrow> (string \<times> SIDElement) list \<Rightarrow> string option" where
  "findStale doc target [] = None"
| "findStale doc target ((ident, sidEl) # rest) =
     (if (case querySelector doc (sid_selector sidEl) of
            None \<Rightarrow> False
          | Some (q, n) \<Rightarrow> target = Some q)
      then Some ident
      else findStale doc target rest)"

definition handleAttributeChange ::
  "(string \<Rightarrow> json option) \<Rightarrow> dom_document \<Rightarrow> dom_node \<Rightarrow> node_path option \<Rightarrow> string option
     \<Rightarrow> ElementRegistry \<Rightarrow> ElementRegistry" where
  "handleAttributeChange JSON_parse doc element target attributeName r =
     (case truthy attributeName of
        None \<Rightarrow> r
      | Some name \<Rightarrow>
          if name = ''data-sid'' then
            (case truthy (getAttribute element ''data-sid'') of
               Some newId \<Rightarrow> parseAndSet JSON_parse element r
             | None \<Rightarrow>
                 (case findStale doc target (elements r) of
                    None \<Rightarrow> r
                  | Some ident \<Rightarrow> r\<lparr> elements := AList.delete ident (elements r) \<rparr>))
          else
            (case truthy (getAttribute element ''data-sid'') of
               None \<Rightarrow> r
             | Some ident \<Rightarrow>
                 if map_of (elements r) ident \<noteq> None then parseAndSet JSON_parse element r else r))"

text \<open>
  A mutation record: the added and removed nodes of a \<open>childList\<close> record, or the
  target (the node as it is when the callback runs, and its path if it is still in the
  document) and attribute name of an \<open>attributes\<close> record.
\<close>

datatype MutationRecord =
    ChildList "dom_node list" "dom_node list"
  | AttributesChanged dom_node "node_path option" "string option"

fun handleMutation ::
  "(string \<Rightarrow> json option) \<Rightarrow> dom_document \<Rightarrow> MutationRecord \<Rightarrow> ElementRegistry \<Rightarrow> ElementRegistry" where
  "handleMutation JSON_parse doc (ChildList addedNodes removedNodes) r =
     fold handleRemovedNode removedNodes (fold (handleAddedNode JSON_parse) addedNodes r)"
| "handleMutation JSON_parse doc (AttributesChanged element target attributeName) r =
     handleAttributeChange JSON_parse doc element target attributeName r"

definition handleMutations ::
  "(string \<Rightarrow> json option) \<Rightarrow> dom_document \<Rightarrow> MutationRecord list \<Rightarrow> ElementRegistry \<Rightarrow> ElementRegistry" where
  "handleMutations JSON_parse doc mutations r = fold (handleMutation JSON_parse doc) mutations r"

definition registry_destroy :: "ElementRegistry \<Rightarrow> ElementRegistry" where
  "registry_destroy r = r\<lparr> elements := [], observing := False \<rparr>"

text \<open>
  What can happen to a registry after its construction: a manual rescan, a batch of
  mutation records delivered to the observer (only while it is installed), a call of
  \<open>startObserving\<close>, and \<open>destroy\<close>. Each carries the document as it is at that time,
  which the page changes freely in between.
\<close>

datatype registry_call =
    CallScanDocument dom_document
  | ObserverCallback dom_document "MutationRecord list"
  | CallStartObserving
  | CallDestroy

fun registry_step :: "(string \<Rightarrow> json option) \<Rightarrow> registry_call \<Rightarrow> ElementRegistry \<Rightarrow> ElementRegistry" where
  "registry_step JSON_parse (CallScanDocument doc) r = scanDocument JSON_parse doc r"
| "registry_step JSON_parse (ObserverCallback doc mutations) r =
     (if observing r then handleMutations JSON_parse doc mutations r else r)"
| "registry_step JSON_parse CallStartObserving r = startObserving r"
| "registry_step JSON_parse CallDestroy r = registry_destroy r"

definition registry_run ::
  "(string \<Rightarrow> json option) \<Rightarrow> registry_call list \<Rightarrow> ElementRegistry \<Rightarrow> ElementRegistry" where
  "registry_run JSON_parse calls r = fold (registry_step JSON_parse) calls r"

text \<open>
  The invariant of the registry's map: an entry is the conversion of the attributes
  parsed from some node, stored under that node's identifier.
\<close>

definition from_node :: "(string \<Rightarrow> json option) \<Rightarrow> string \<times> SIDElement \<Rightarrow> bool" where
  "from_node P x = (\<exists>node attrs. parseAttributes P node = Some attrs
                      \<and> snd x = convertToSIDElement attrs \<and> fst x = pa_id attrs)"

section \<open>Context reader (context-parser.ts)\<close>

text \<open>
  The claims about the context reader speak of object identity, so objects live in a
  store: every object literal the code evaluates allocates the next address, and the
  module variable \<open>cachedContext\<close> holds an address or \<open>null\<close>. An absent property
  and a property holding \<open>undefined\<close> are both \<open>None\<close>.
\<close>

record SIDContextMetadata =
  cm_version :: "string option"
  cm_app :: "string option"
  cm_page :: "string option"
  cm_auth :: "string option"

record context_module =
  cachedContext :: "nat option"
  contextParsed :: bool
  objects :: "SIDContextMetadata list"

definition empty_record :: SIDContextMetadata where
  "empty_record = \<lparr> cm_version = None, cm_app = None, cm_page = None, cm_auth = None \<rparr>"

text \<open>Evaluating an object literal: the new object's address is the next free one.\<close>

definition allocate :: "SIDContextMetadata \<Rightarrow> context_module \<Rightarrow> nat \<times> context_module" where
  "allocate obj m = (length (objects m), m\<lparr> objects := objects m @ [obj] \<rparr>)"

definition context_initial :: context_module where
  "context_initial = \<lparr> cachedContext = None, contextParsed = False, objects = [] \<rparr>"

definition stringField :: "json \<Rightarrow> string \<Rightarrow> string option" where
  "stringField parsed k =
     (case property parsed k of
        Some (JString s) \<Rightarrow> Some s
      | _ \<Rightarrow> None)"

text \<open>
  \<open>parseContextScript\<close> returns the address of the object it hands out. \<open>doc\<close> is
  \<open>None\<close> where \<open>typeof document === 'undefined'\<close>.
\<close>

definition parseContextScript ::
  "(string \<Rightarrow> json option) \<Rightarrow> dom_document option \<Rightarrow> context_module \<Rightarrow> nat \<times> context_module" where
  "parseContextScript JSON_parse doc m =
     (if contextParsed m then
        (case cachedContext m of
           Some a \<Rightarrow> (a, m)
         | None \<Rightarrow> allocate empty_record m)
      else
        let m1 = m\<lparr> contextParsed := True \<rparr>
        in case doc of
             None \<Rightarrow> allocate empty_record m1
           | Some d \<Rightarrow>
               (case querySelector d (TagAttrEquals ''script'' ''type'' ''application/sid+json'') of
                  None \<Rightarrow> allocate empty_record (m1\<lparr> cachedContext := None \<rparr>)
                | Some (q, scriptElement) \<Rightarrow>
                    let scriptContent = textContent (props scriptElement)
                    in if scriptContent = [] \<or> trim scriptContent = [] then
                         allocate empty_record (m1\<lparr> cachedContext := None \<rparr>)
                       else
                         (case JSON_parse (trim scriptContent) of
                            None \<Rightarrow> allocate empty_record (m1\<lparr> cachedContext := None \<rparr>)
                          | Some parsed \<Rightarrow>
                              if typeof parsed \<noteq> ''object'' \<or> parsed = JNull \<or> isArray parsed then
                                allocate empty_record (m1\<lparr> cachedContext := None \<rparr>)
                              else
                                let (a, m2) =
                                      allocate \<lparr> cm_version = stringField parsed ''version'',
                                                 cm_app = stringField parsed ''app'',
                                                 cm_page = stringField parsed ''page'',
                                                 cm_auth = stringField parsed ''auth'' \<rparr> m1
                                in (a, m2\<lparr> cachedContext := Some a \<rparr>))))"

definition getContextMetadata ::
  "(string \<Rightarrow> json option) \<Rightarrow> dom_document option \<Rightarrow> context_module \<Rightarrow> nat \<times> context_module" where
  "getContextMetadata JSON_parse doc m = parseContextScript JSON_parse doc m"

definition clearContextCache :: "context_module \<Rightarrow> context_module" where
  "clearContextCache m = m\<lparr> cachedContext := None, contextParsed := False \<rparr>"

text \<open>
  A sequence of \<open>getContextMetadata\<close> calls with no \<open>clearContextCache\<close> between them;
  the document may differ from call to call. The result lists the addresses returned.
\<close>

fun getContextMetadata_calls ::
  "(string \<Rightarrow> json option) \<Rightarrow> dom_document option list \<Rightarrow> context_module \<Rightarrow> nat list \<times> context_module" where
  "getContextMetadata_calls JSON_parse [] m = ([], m)"
| "getContextMetadata_calls JSON_parse (doc # docs) m =
     (let (a, m1) = getContextMetadata JSON_parse doc m;
          (as, m2) = getContextMetadata_calls JSON_parse docs m1
      in (a # as, m2))"

text \<open>
  The document states in which there is nothing to read: no document at all, no metadata
  block, a block whose content is empty or white space, content on which \<open>JSON.parse\<close>
  throws, and content that parses to something other than an object (\<open>null\<close>, an
  array, a primitive).
\<close>

definition unusable_metadata :: "(string \<Rightarrow> json option) \<Rightarrow> dom_document option \<Rightarrow> bool" where
  "unusable_metadata JSON_parse doc =
     (case doc of
        None \<Rightarrow> True
      | Some d \<Rightarrow>
          (case querySelector d (TagAttrEquals ''script'' ''type'' ''application/sid+json'') of
             None \<Rightarrow> True
           | Some (q, scriptElement) \<Rightarrow>
               trim (textContent (props scriptElement)) = []
               \<or> (case JSON_parse (trim (textContent (props scriptElement))) of
                     None \<Rightarrow> True
                   | Some (JObject kvs) \<Rightarrow> False
                   | Some other \<Rightarrow> True)))"

section \<open>Legacy operation tracker (operation-tracker)\<close>

record OperationEffects =
  navigatedTo :: "string option"
  elementsAdded :: "string list option"
  elementsRemoved :: "string list option"
  changes :: "string option"

record Operation =
  op_id :: string
  op_elementId :: string
  op_actionType :: string
  op_status :: string
  op_message :: "string option"
  op_startedAt :: nat
  op_completedAt :: "nat option"
  op_effects :: "OperationEffects option"

text \<open>
  \<open>idCounter\<close> is a JavaScript number used as a counter; it is modelled as a natural
  number, which is what the number holds below \<open>2^53\<close> increments. The readings of
  \<open>Date.now()\<close> are arguments.
\<close>

record OperationTracker =
  operations :: "(string \<times> Operation) list"
  idCounter :: nat

definition tracker_new :: OperationTracker where
  "tracker_new = \<lparr> operations = [], idCounter = 0 \<rparr>"

definition tracker_start :: "string \<Rightarrow> string \<Rightarrow> nat \<Rightarrow> OperationTracker \<Rightarrow> Operation \<times> OperationTracker" where
  "tracker_start elementId actionType now t =
     (let t1 = t\<lparr> idCounter := idCounter t + 1 \<rparr>;
          ident = ''op-'' @ decimal (idCounter t1);
          operation = \<lparr> op_id = ident, op_elementId = elementId, op_actionType = actionType,
                        op_status = ''pending'', op_message = None, op_startedAt = now,
                        op_completedAt = None, op_effects = None \<rparr>
      in (operation, t1\<lparr> operations := AList.update ident operation (operations t1) \<rparr>))"

definition tracker_complete ::
  "string \<Rightarrow> string \<Rightarrow> string option \<Rightarrow> OperationEffects option \<Rightarrow> nat \<Rightarrow> OperationTracker \<Rightarrow> OperationTracker" where
  "tracker_complete ident st msg eff now t =
     (case map_of (operations t) ident of
        None \<Rightarrow> t
      | Some operation \<Rightarrow>
          if op_status operation \<noteq> ''pending'' then t
          else
            let o1 = operation\<lparr> op_status := st, op_completedAt := Some now \<rparr>;
                o2 = (case msg of None \<Rightarrow> o1 | Some mg \<Rightarrow> o1\<lparr> op_message := Some mg \<rparr>);
                o3 = (case eff of None \<Rightarrow> o2 | Some e \<Rightarrow> o2\<lparr> op_effects := Some e \<rparr>)
            in t\<lparr> operations := AList.update ident o3 (operations t) \<rparr>)"

definition tracker_get :: "string \<Rightarrow> OperationTracker \<Rightarrow> Operation option" where
  "tracker_get ident t = map_of (operations t) ident"

definition tracker_clear :: "OperationTracker \<Rightarrow> OperationTracker" where
  "tracker_clear t = t\<lparr> operations := [] \<rparr>"

text \<open>
  A sequence of calls on one tracker; \<open>tracker_run\<close> returns the identifiers that the
  \<open>start\<close> calls of the sequence allocated, in order. \<open>get\<close> and \<open>poll\<close> only read the
  store, so \<open>get\<close> stands for both here.
\<close>

datatype tracker_call =
    Start string string nat
  | Complete string string "string option" "OperationEffects option" nat
  | Get string
  | Clear

fun tracker_run :: "tracker_call list \<Rightarrow> OperationTracker \<Rightarrow> string list \<times> OperationTracker" where
  "tracker_run [] t = ([], t)"
| "tracker_run (Start elementId actionType now # cs) t =
     (let (operation, t1) = tracker_start elementId actionType now t;
          (ids, t2) = tracker_run cs t1
      in (op_id operation # ids, t2))"
| "tracker_run (Complete ident st msg eff now # cs) t =
     tracker_run cs (tracker_complete ident st msg eff now t)"
| "tracker_run (Get ident # cs) t = tracker_run cs t"
| "tracker_run (Clear # cs) t = tracker_run cs (tracker_clear t)"

definition starts :: "tracker_call list \<Rightarrow> nat" where
  "starts cs = length (filter (\<lambda>c. case c of Start e a n \<Rightarrow> True | _ \<Rightarrow> False) cs)"

section \<open>Interaction executor (interaction-executor)\<close>

record InteractionResult =
  success :: bool
  status :: string
  error :: "string option"
  message :: "string option"
  effects :: "OperationEffects option"

record CompletionResult =
  cr_status :: string
  cr_message :: "string option"
  cr_effects :: "OperationEffects option"

text \<open>The \<open>value\<close> of an action: \<open>string | number | boolean | File\<close>, or absent.\<close>

datatype action_value =
    Undefined
  | StringValue string
  | NumberValue int
  | BooleanValue bool
  | FileValue js_file

record InteractionAction =
  act_type :: string
  act_value :: action_value

record InteractionOptions =
  timeout :: "nat option"

definition DEFAULT_TIMEOUT_MS :: nat where
  "DEFAULT_TIMEOUT_MS = 30000"

text \<open>The destructuring default \<open>const { timeout = DEFAULT_TIMEOUT_MS } = options\<close>.\<close>

definition effective_timeout :: "InteractionOptions \<Rightarrow> nat" where
  "effective_timeout opts = (case timeout opts of None \<Rightarrow> DEFAULT_TIMEOUT_MS | Some t \<Rightarrow> t)"

text \<open>\<open>String(action.value ?? '')\<close> and \<open>Boolean(action.value)\<close>.\<close>

fun String_of :: "action_value \<Rightarrow> string" where
  "String_of Undefined = []"
| "String_of (StringValue s) = s"
| "String_of (NumberValue n) = decimal_int n"
| "String_of (BooleanValue b) = (if b then ''true'' else ''false'')"
| "String_of (FileValue f) = ''[object File]''"

fun Boolean_of :: "action_value \<Rightarrow> bool" where
  "Boolean_of Undefined = False"
| "Boolean_of (StringValue s) = (s \<noteq> [])"
| "Boolean_of (NumberValue n) = (n \<noteq> 0)"
| "Boolean_of (BooleanValue b) = b"
| "Boolean_of (FileValue f) = True"

text \<open>
  The closures of the executor, by what they capture. \<open>Resolver timeoutId id promise\<close>
  is the \<open>resolve\<close> stored in a pending operation; \<open>TimeoutCallback id promise timeout\<close>
  is the function handed to \<open>setTimeout\<close>. A promise is named by its index in the list
  of promises created so far.
\<close>

datatype resolver = Resolver nat string nat

datatype timer_callback = TimeoutCallback string nat nat

record PendingOperation =
  resolve :: resolver
  timeoutId :: nat

record timer =
  deadline :: nat
  callback :: timer_callback

datatype promise_state = Pending | Fulfilled InteractionResult | Rejected string

text \<open>
  The state an executor works on: its registry and its \<open>pendingOperations\<close> map, and of
  the platform the document, the active timers (in creation order), the promises and the
  clock in milliseconds.
\<close>

record runtime =
  registry :: ElementRegistry
  document :: dom_document
  pendingOperations :: "(string \<times> PendingOperation) list"
  timers :: "(nat \<times> timer) list"
  next_timer :: nat
  promises :: "promise_state list"
  now :: nat

definition runtime_new :: "ElementRegistry \<Rightarrow> dom_document \<Rightarrow> runtime" where
  "runtime_new r doc =
     \<lparr> registry = r, document = doc, pendingOperations = [], timers = [], next_timer = 0,
       promises = [], now = 0 \<rparr>"

definition setTimeout :: "timer_callback \<Rightarrow> nat \<Rightarrow> runtime \<Rightarrow> nat \<times> runtime" where
  "setTimeout cb delay s =
     (next_timer s,
      s\<lparr> timers := timers s @ [(next_timer s, \<lparr> deadline = now s + delay, callback = cb \<rparr>)],
         next_timer := Suc (next_timer s) \<rparr>)"

definition clearTimeout :: "nat \<Rightarrow> runtime \<Rightarrow> runtime" where
  "clearTimeout tid s = s\<lparr> timers := AList.delete tid (timers s) \<rparr>"

text \<open>Calling a promise's \<open>resolve\<close> function: only the first call settles it.\<close>

definition resolve_promise :: "nat \<Rightarrow> InteractionResult \<Rightarrow> runtime \<Rightarrow> runtime" where
  "resolve_promise p r s =
     (if p < length (promises s) \<and> promises s ! p = Pending
      then s\<lparr> promises := (promises s)[p := Fulfilled r] \<rparr>
      else s)"

definition new_promise :: "runtime \<Rightarrow> nat \<times> runtime" where
  "new_promise s = (length (promises s), s\<lparr> promises := promises s @ [Pending] \<rparr>)"

text \<open>An early \<open>return\<close> of the async function: its promise is fulfilled at once.\<close>

definition return_result :: "InteractionResult \<Rightarrow> runtime \<Rightarrow> nat \<times> runtime" where
  "return_result r s = (length (promises s), s\<lparr> promises := promises s @ [Fulfilled r] \<rparr>)"

definition error_result :: "string \<Rightarrow> InteractionResult" where
  "error_result msg =
     \<lparr> success = False, status = ''error'', error = Some msg, message = None, effects = None \<rparr>"

definition executeClick :: "node_path \<Rightarrow> dom_document \<Rightarrow> dom_document" where
  "executeClick el doc = dispatchEvent el ''click'' True True doc"

definition executeFill :: "node_path \<Rightarrow> string \<Rightarrow> dom_document \<Rightarrow> dom_document" where
  "executeFill el v doc =
     dispatchEvent el ''change'' True True
       (dispatchEvent el ''input'' True True
          (doc\<lparr> documentElement :=
                  update_at (set_props (\<lambda>p. p\<lparr> el_value := v \<rparr>)) el (documentElement doc) \<rparr>))"

definition executeSelect :: "node_path \<Rightarrow> string \<Rightarrow> dom_document \<Rightarrow> dom_document" where
  "executeSelect el v doc =
     dispatchEvent el ''change'' True True
       (doc\<lparr> documentElement :=
               update_at (set_props (\<lambda>p. p\<lparr> el_value := v \<rparr>)) el (documentElement doc) \<rparr>)"

definition executeCheck :: "node_path \<Rightarrow> bool \<Rightarrow> dom_document \<Rightarrow> dom_document" where
  "executeCheck el checked doc =
     dispatchEvent el ''change'' True True
       (doc\<lparr> documentElement :=
               update_at (set_props (\<lambda>p. p\<lparr> el_checked := checked \<rparr>)) el (documentElement doc) \<rparr>)"

definition executeHover :: "node_path \<Rightarrow> dom_document \<Rightarrow> dom_document" where
  "executeHover el doc =
     dispatchEvent el ''mouseover'' True True (dispatchEvent el ''mouseenter'' False False doc)"

definition executeUpload :: "node_path \<Rightarrow> js_file \<Rightarrow> dom_document \<Rightarrow> dom_document" where
  "executeUpload el file doc =
     dispatchEvent el ''change'' True True
       (doc\<lparr> documentElement :=
               update_at (set_props (\<lambda>p. p\<lparr> el_files := [file] \<rparr>)) el (documentElement doc) \<rparr>)"

text \<open>The \<open>type\<close> property of an input element reflects its attribute in lower case.\<close>

definition input_type :: "dom_node \<Rightarrow> string" where
  "input_type el = (case getAttribute el ''type'' of None \<Rightarrow> ''text'' | Some t \<Rightarrow> toLowerCase t)"

text \<open>
  \<open>triggerAction\<close>: \<open>Inl\<close> carries the message of the \<open>Error\<close> thrown, \<open>Inr\<close> the
  document after the native action. Every \<open>throw\<close> of the source precedes the first
  write, so a thrown error leaves the document as it was.
\<close>

definition triggerAction ::
  "dom_document \<Rightarrow> node_path \<Rightarrow> dom_node \<Rightarrow> InteractionAction \<Rightarrow> string + dom_document" where
  "triggerAction doc el domElement action =
     (if act_type action = ''click'' then Inr (executeClick el doc)
      else if act_type action = ''fill'' then
        (if \<not> (localName domElement = ''input'' \<or> localName domElement = ''textarea'')
         then Inl ''Element is not a fillable input element''
         else Inr (executeFill el (String_of (act_value action)) doc))
      else if act_type action = ''select'' then
        (if localName domElement \<noteq> ''select''
         then Inl ''Element is not a select element''
         else Inr (executeSelect el (String_of (act_value action)) doc))
      else if act_type action = ''check'' then
        (if localName domElement \<noteq> ''input''
         then Inl ''Element is not a checkable input element''
         else Inr (executeCheck el (Boolean_of (act_value action)) doc))
      else if act_type action = ''hover'' then Inr (executeHover el doc)
      else if act_type action = ''upload'' then
        (if localName domElement \<noteq> ''input'' \<or> input_type domElement \<noteq> ''file''
         then Inl ''Element is not a file input element''
         else (case act_value action of
                 FileValue file \<Rightarrow> Inr (executeUpload el file doc)
               | _ \<Rightarrow> Inl ''Upload action requires a File value''))
      else Inl (''Invalid action type: '' @ act_type action))"

text \<open>\<open>attrs?.tracking || 'async'\<close>, read from the live node at call time.\<close>

definition tracking_of :: "(string \<Rightarrow> json option) \<Rightarrow> dom_node \<Rightarrow> string" where
  "tracking_of JSON_parse domElement =
     (case parseAttributes JSON_parse domElement of
        None \<Rightarrow> ''async''
      | Some attrs \<Rightarrow> if pa_tracking attrs = [] then ''async'' else pa_tracking attrs)"

definition destination_of :: "(string \<Rightarrow> json option) \<Rightarrow> dom_node \<Rightarrow> string" where
  "destination_of JSON_parse domElement =
     (case parseAttributes JSON_parse domElement of
        None \<Rightarrow> ''Navigation triggered''
      | Some attrs \<Rightarrow>
          (case truthy (pa_destination attrs) of
             None \<Rightarrow> ''Navigation triggered''
           | Some d \<Rightarrow> d))"

definition failed_result :: "string \<Rightarrow> InteractionResult" where
  "failed_result msg = error_result (''Action execution failed: '' @ msg)"

definition timeout_result :: "nat \<Rightarrow> InteractionResult" where
  "timeout_result t =
     \<lparr> success = True, status = ''timeout'', error = None,
       message = Some (''Operation timed out after '' @ decimal t @ ''ms''), effects = None \<rparr>"

text \<open>
  The three immediate tracking kinds share their shape: the native action, then a
  result with the given status and message, or the caught error.
\<close>

definition trigger_and_return ::
  "node_path \<Rightarrow> dom_node \<Rightarrow> InteractionAction \<Rightarrow> string \<Rightarrow> string \<Rightarrow> runtime \<Rightarrow> nat \<times> runtime" where
  "trigger_and_return el domElement action st msg s =
     (case triggerAction (document s) el domElement action of
        Inr doc' \<Rightarrow>
          return_result \<lparr> success = True, status = st, error = None, message = Some msg,
                          effects = None \<rparr> (s\<lparr> document := doc' \<rparr>)
      | Inl e \<Rightarrow> return_result (failed_result e) s)"

text \<open>
  \<open>execute\<close> returns the promise it hands to the caller and the state after its
  synchronous part. The promise of the async function and the promise it returns in its
  last branch are one promise here.
\<close>

definition execute ::
  "(string \<Rightarrow> json option) \<Rightarrow> string \<Rightarrow> InteractionAction \<Rightarrow> InteractionOptions \<Rightarrow> runtime
     \<Rightarrow> nat \<times> runtime" where
  "execute JSON_parse ident action opts s =
     (let tmo = effective_timeout opts
      in case registry_get (registry s) ident of
           None \<Rightarrow> return_result (error_result (''Element not found: '' @ ident)) s
         | Some sidElement \<Rightarrow>
             if sid_disabled sidElement then
               return_result
                 (error_result
                    (case truthy (sid_disabledDescription sidElement) of
                       Some d \<Rightarrow> ''Element is disabled: '' @ d
                     | None \<Rightarrow> ''Element is disabled: '' @ ident)) s
             else
               (case querySelector (document s) (sid_selector sidElement) of
                  None \<Rightarrow> return_result (error_result (''Element not found in DOM: '' @ ident)) s
                | Some (el, domElement) \<Rightarrow>
                    let trackingType = tracking_of JSON_parse domElement
                    in if trackingType = ''none'' then
                         trigger_and_return el domElement action ''completed''
                           (act_type action @ '' executed on '' @ ident) s
                       else if trackingType = ''navigation'' then
                         trigger_and_return el domElement action ''navigation''
                           (destination_of JSON_parse domElement) s
                       else if trackingType = ''external'' then
                         trigger_and_return el domElement action ''external''
                           (if sid_description sidElement = [] then ''External operation triggered''
                            else sid_description sidElement) s
                       else
                         let (promise, s1) = new_promise s;
                             (tid, s2) = setTimeout (TimeoutCallback ident promise tmo) tmo s1;
                             s3 = s2\<lparr> pendingOperations :=
                                        AList.update ident
                                          \<lparr> resolve = Resolver tid ident promise, timeoutId = tid \<rparr>
                                          (pendingOperations s2) \<rparr>
                         in case triggerAction (document s3) el domElement action of
                              Inr doc' \<Rightarrow> (promise, s3\<lparr> document := doc' \<rparr>)
                            | Inl e \<Rightarrow>
                                (promise,
                                 resolve_promise promise (failed_result e)
                                   ((clearTimeout tid s3)
                                      \<lparr> pendingOperations := AList.delete ident (pendingOperations s3) \<rparr>))))"

text \<open>Applying a stored \<open>resolve\<close> closure to a completion payload.\<close>

fun call_resolver :: "resolver \<Rightarrow> CompletionResult \<Rightarrow> runtime \<Rightarrow> runtime" where
  "call_resolver (Resolver tid ident promise) result s =
     resolve_promise promise
       \<lparr> success = True, status = cr_status result, error = None, message = cr_message result,
         effects = cr_effects result \<rparr>
       ((clearTimeout tid s)\<lparr> pendingOperations := AList.delete ident (pendingOperations s) \<rparr>)"

definition complete :: "string \<Rightarrow> CompletionResult \<Rightarrow> runtime \<Rightarrow> runtime" where
  "complete elementId result s =
     (case map_of (pendingOperations s) elementId of
        None \<Rightarrow> s
      | Some pending \<Rightarrow> call_resolver (resolve pending) result s)"

text \<open>A timer that fires is removed from the active timers and its callback runs.\<close>

fun call_timer :: "timer_callback \<Rightarrow> runtime \<Rightarrow> runtime" where
  "call_timer (TimeoutCallback ident promise tmo) s =
     resolve_promise promise (timeout_result tmo)
       (s\<lparr> pendingOperations := AList.delete ident (pendingOperations s) \<rparr>)"

definition fire_timer :: "nat \<Rightarrow> runtime \<Rightarrow> runtime" where
  "fire_timer tid s =
     (case map_of (timers s) tid of
        None \<Rightarrow> s
      | Some tm \<Rightarrow> call_timer (callback tm) (s\<lparr> timers := AList.delete tid (timers s) \<rparr>))"

text \<open>
  Time passing: the clock moves on by \<open>dt\<close> and every timer that is due by then fires,
  the earlier deadline first and, among equal deadlines, the earlier \<open>setTimeout\<close> first.
\<close>

definition due_timers :: "nat \<Rightarrow> (nat \<times> timer) list \<Rightarrow> nat list" where
  "due_timers t ts =
     map fst (sort_key (\<lambda>(tid, tm). deadline tm) (filter (\<lambda>(tid, tm). deadline tm \<le> t) ts))"

definition elapse :: "nat \<Rightarrow> runtime \<Rightarrow> runtime" where
  "elapse dt s = fold fire_timer (due_timers (now s + dt) (timers s)) (s\<lparr> now := now s + dt \<rparr>)"

text \<open>
  The events of a trace: a call of \<open>execute\<close>, a call of \<open>complete\<close>, time passing, and
  the page or the registry's observer changing the document and the registry.
\<close>

datatype event =
    Interact string InteractionAction InteractionOptions
  | Signal string CompletionResult
  | Elapse nat
  | PageChange ElementRegistry dom_document

fun step :: "(string \<Rightarrow> json option) \<Rightarrow> event \<Rightarrow> runtime \<Rightarrow> runtime" where
  "step JSON_parse (Interact ident action opts) s = snd (execute JSON_parse ident action opts s)"
| "step JSON_parse (Signal elementId result) s = complete elementId result s"
| "step JSON_parse (Elapse dt) s = elapse dt s"
| "step JSON_parse (PageChange r doc) s = s\<lparr> registry := r, document := doc \<rparr>"

definition run :: "(string \<Rightarrow> json option) \<Rightarrow> event list \<Rightarrow> runtime \<Rightarrow> runtime" where
  "run JSON_parse evs s = fold (step JSON_parse) evs s"

text \<open>The timer and the pending operation that a tracked call creates in state \<open>s\<close>.\<close>

definition new_timer :: "runtime \<Rightarrow> string \<Rightarrow> InteractionOptions \<Rightarrow> nat \<times> timer" where
  "new_timer s ident opts =
     (next_timer s, \<lparr> deadline = now s + effective_timeout opts,
                      callback = TimeoutCallback ident (length (promises s)) (effective_timeout opts) \<rparr>)"

definition new_pending :: "runtime \<Rightarrow> string \<Rightarrow> PendingOperation" where
  "new_pending s ident =
     \<lparr> resolve = Resolver (next_timer s) ident (length (promises s)), timeoutId = next_timer s \<rparr>"

text \<open>The result a completion signal settles a promise with: \<open>{ success: true, ...result }\<close>.\<close>

definition completed_result :: "CompletionResult \<Rightarrow> InteractionResult" where
  "completed_result r =
     \<lparr> success = True, status = cr_status r, error = None, message = cr_message r,
       effects = cr_effects r \<rparr>"

section \<open>Invariants of the executor's bookkeeping\<close>

fun cb_promise :: "timer_callback \<Rightarrow> nat" where
  "cb_promise (TimeoutCallback ident promise tmo) = promise"

text \<open>
  What holds of every state the executor reaches: an active timer has an identifier
  below the next one to be handed out and belongs to a promise that is still pending;
  no two active timers belong to the same promise; and every pending operation stored
  under an identifier holds the resolver and the active timer that one call of
  \<open>execute\<close> created for that identifier.
\<close>

definition consistent :: "runtime \<Rightarrow> bool" where
  "consistent s =
     ((\<forall>tid tm. map_of (timers s) tid = Some tm \<longrightarrow>
          tid < next_timer s \<and> cb_promise (callback tm) < length (promises s)
          \<and> promises s ! cb_promise (callback tm) = Pending)
      \<and> (\<forall>tid tid' tm tm'. map_of (timers s) tid = Some tm \<and> map_of (timers s) tid' = Some tm'
            \<and> cb_promise (callback tm) = cb_promise (callback tm') \<longrightarrow> tid = tid')
      \<and> (\<forall>i po. map_of (pendingOperations s) i = Some po \<longrightarrow>
            (\<exists>p d dl. resolve po = Resolver (timeoutId po) i p
               \<and> map_of (timers s) (timeoutId po)
                   = Some \<lparr> deadline = dl, callback = TimeoutCallback i p d \<rparr>)))"

text \<open>
  The two stages of one tracked call, named by the timer \<open>tid\<close> with deadline \<open>dl\<close> it
  started for identifier \<open>ident\<close>, promise \<open>p\<close> and timeout \<open>tmo\<close>: its timer is still
  active, or its promise was fulfilled by that timer.
\<close>

definition waiting :: "runtime \<Rightarrow> nat \<Rightarrow> nat \<Rightarrow> string \<Rightarrow> nat \<Rightarrow> nat \<Rightarrow> bool" where
  "waiting s tid dl ident p tmo =
     (map_of (timers s) tid = Some \<lparr> deadline = dl, callback = TimeoutCallback ident p tmo \<rparr>)"

definition timed_out :: "runtime \<Rightarrow> nat \<Rightarrow> nat \<Rightarrow> bool" where
  "timed_out s p tmo = (p < length (promises s) \<and> promises s ! p = Fulfilled (timeout_result tmo))"

text \<open>Some pending operation stored under \<open>j\<close> holds a resolver of promise \<open>p\<close>.\<close>

definition resolves :: "runtime \<Rightarrow> string \<Rightarrow> nat \<Rightarrow> bool" where
  "resolves s j p =
     (\<exists>po tid i. map_of (pendingOperations s) j = Some po \<and> resolve po = Resolver tid i p)"

section \<open>Sample pages\<close>

text \<open>
  Concrete inputs for the examples below. \<open>sample_JSON_parse\<close> is \<open>JSON.parse\<close> on the
  two JSON texts the examples contain; no other text of the examples is JSON.
\<close>

definition sample_JSON_parse :: "string \<Rightarrow> json option" where
  "sample_JSON_parse s =
     (if s = ''{\"app\":\"Shop\"}'' then Some (JObject [(''app'', JString ''Shop'')])
      else if s = ''[1]'' then Some (JArray [JNumber 1])
      else None)"

definition no_props :: node_props where
  "no_props = \<lparr> el_value = [], el_checked = False, el_files = [], textContent = [] \<rparr>"

definition page_without_metadata :: dom_document where
  "page_without_metadata =
     \<lparr> documentElement = Element ''html'' [] no_props [Element ''body'' [] no_props []],
       dispatched = [] \<rparr>"

definition page_with_metadata :: dom_document where
  "page_with_metadata =
     \<lparr> documentElement =
         Element ''html'' [] no_props
           [Element ''head'' [] no_props
              [Element ''script'' [(''type'', ''application/sid+json'')]
                 (no_props\<lparr> textContent := '' {\"app\":\"Shop\"} '' \<rparr>) []],
            Element ''body'' [] no_props []],
       dispatched = [] \<rparr>"

text \<open>
  A page with annotated elements: a button with default tracking, an e-mail input, a
  disabled button, a navigation link and a hover target without tracking.
\<close>

definition shop_page :: dom_document where
  "shop_page =
     \<lparr> documentElement =
         Element ''html'' [] no_props
           [Element ''body'' [] no_props
              [Element ''button'' [(''data-sid'', ''save''), (''data-sid-desc'', ''Save the form'')]
                 no_props [],
               Element ''input''
                 [(''data-sid'', ''email''), (''data-sid-action'', ''fill''),
                  (''data-sid-input'', ''email,required'')] no_props [],
               Element ''button''
                 [(''data-sid'', ''locked''), (''data-sid-disabled'', ''true''),
                  (''data-sid-disabled-desc'', ''locked'')] no_props [],
               Element ''a''
                 [(''data-sid'', ''home''), (''data-sid-tracking'', ''navigation''),
                  (''data-sid-destination'', ''/x'')] no_props [],
               Element ''div''
                 [(''data-sid'', ''menu''), (''data-sid-action'', ''hover''),
                  (''data-sid-tracking'', ''none'')] no_props []]],
       dispatched = [] \<rparr>"

text \<open>A page on which two elements carry the same identifier.\<close>

definition twin_page :: dom_document where
  "twin_page =
     \<lparr> documentElement =
         Element ''html'' [] no_props
           [Element ''body'' [] no_props
              [Element ''button'' [(''data-sid'', ''go''), (''data-sid-tracking'', ''none'')]
                 no_props [],
               Element ''button'' [(''data-sid'', ''go''), (''data-sid-tracking'', ''none'')]
                 no_props []]],
       dispatched = [] \<rparr>"

text \<open>
  The executor on the sample page, with the registry scanned from it; the same executor
  after the page has dropped all annotated elements without the registry following;
  and the executor of the page with the twin identifiers.
\<close>

definition shop_runtime :: runtime where
  "shop_runtime = runtime_new (ElementRegistry_new sample_JSON_parse shop_page True) shop_page"

definition stale_runtime :: runtime where
  "stale_runtime =
     runtime_new (ElementRegistry_new sample_JSON_parse shop_page False) page_without_metadata"

definition twin_runtime :: runtime where
  "twin_runtime = runtime_new (ElementRegistry_new sample_JSON_parse twin_page True) twin_page"

definition save_element :: SIDElement where
  "save_element =
     \<lparr> sid_id = ''save'', sid_selector = AttrEquals ''data-sid'' ''save'',
       sid_description = ''Save the form'', sid_descriptionLong = None,
       sid_actions = [\<lparr> ad_type = ''click'', ad_input = None, ad_tracked = True,
                        ad_description = ''Save the form'' \<rparr>],
       sid_disabled = False, sid_disabledDescription = None, sid_humanInput = None \<rparr>"

definition save_node :: dom_node where
  "save_node =
     Element ''button'' [(''data-sid'', ''save''), (''data-sid-desc'', ''Save the form'')]
       no_props []"

definition locked_element :: SIDElement where
  "locked_element =
     \<lparr> sid_id = ''locked'', sid_selector = AttrEquals ''data-sid'' ''locked'',
       sid_description = [], sid_descriptionLong = None,
       sid_actions = [\<lparr> ad_type = ''click'', ad_input = None, ad_tracked = True,
                        ad_description = [] \<rparr>],
       sid_disabled = True, sid_disabledDescription = Some ''locked'', sid_humanInput = None \<rparr>"

definition go_element :: SIDElement where
  "go_element =
     \<lparr> sid_id = ''go'', sid_selector = AttrEquals ''data-sid'' ''go'',
       sid_description = [], sid_descriptionLong = None,
       sid_actions = [\<lparr> ad_type = ''click'', ad_input = None, ad_tracked = False,
                        ad_description = [] \<rparr>],
       sid_disabled = False, sid_disabledDescription = None, sid_humanInput = None \<rparr>"

definition go_node :: dom_node where
  "go_node =
     Element ''button'' [(''data-sid'', ''go''), (''data-sid-tracking'', ''none'')] no_props []"

definition click_action :: InteractionAction where
  "click_action = \<lparr> act_type = ''click'', act_value = Undefined \<rparr>"

definition fill_action :: InteractionAction where
  "fill_action = \<lparr> act_type = ''fill'', act_value = StringValue ''a@b.com'' \<rparr>"

definition within :: "nat \<Rightarrow> InteractionOptions" where
  "within t = \<lparr> timeout = Some t \<rparr>"

definition no_options :: InteractionOptions where
  "no_options = \<lparr> timeout = None \<rparr>"

definition ok_signal :: CompletionResult where
  "ok_signal = \<lparr> cr_status = ''completed'', cr_message = Some ''ok'', cr_effects = None \<rparr>"

definition error_signal :: CompletionResult where
  "error_signal =
     \<lparr> cr_status = ''error'', cr_message = Some ''rejected by the server'', cr_effects = None \<rparr>"

text \<open>
  Two tracked calls on the same identifier: the first at time 0 with a timeout of 100 ms,
  the second 50 ms later, while the first is still unsettled.
\<close>

definition first_save :: "nat \<times> runtime" where
  "first_save = execute sample_JSON_parse ''save'' click_action (within 100) shop_runtime"

definition second_save :: "nat \<times> runtime" where
  "second_save =
     execute sample_JSON_parse ''save'' click_action (within 100)
       (run sample_JSON_parse [Elapse 50] (snd first_save))"

text \<open>A \<open>fill\<close> on the tracked button, which the native dispatch refuses.\<close>

definition refused_save :: "nat \<times> runtime" where
  "refused_save = execute sample_JSON_parse ''save'' fill_action (within 100) shop_runtime"

section \<open>Round trip of the input constraint\<close>

lemma parse_canonical_required:
  "dt \<in> set VALID_INPUT_DATA_TYPES \<Longrightarrow>
   parseInputAttribute (dt @ '',required'')
     = Some \<lparr> dataType = dt, required = True, options = None \<rparr>"
  unfolding VALID_INPUT_DATA_TYPES_def
  by (elim disjE | simp only: set_simps insert_iff empty_iff)+
     (simp_all add: VALID_INPUT_DATA_TYPES_def parseInputAttribute_def trim_def is_js_space_def
        toLowerCase_def lower_char_def isValidInputDataType_def Let_def)

lemma parse_canonical_optional:
  "dt \<in> set VALID_INPUT_DATA_TYPES \<Longrightarrow>
   parseInputAttribute (dt @ '',optional'')
     = Some \<lparr> dataType = dt, required = False, options = None \<rparr>"
  unfolding VALID_INPUT_DATA_TYPES_def
  by (elim disjE | simp only: set_simps insert_iff empty_iff)+
     (simp_all add: VALID_INPUT_DATA_TYPES_def parseInputAttribute_def trim_def is_js_space_def
        toLowerCase_def lower_char_def isValidInputDataType_def Let_def)

lemma parseInputAttribute_Some:
  assumes "parseInputAttribute v = Some d"
  shows "dataType d \<in> set VALID_INPUT_DATA_TYPES \<and> options d = None"
  using assms
  by (auto simp: parseInputAttribute_def Let_def isValidInputDataType_def split: if_splits)

text \<open>
  C7. For every input-constraint string the parser accepts, with parsed record \<open>d\<close>,
  parsing the re-encoding \<open>dataType d + "," + (required d ? "required" : "optional")\<close>
  gives back exactly \<open>d\<close>.
\<close>

theorem C7_input_constraint_round_trip:
  assumes "parseInputAttribute v = Some d"
  shows "parseInputAttribute (encodeInput d) = Some d"
proof -
  from assms have dt: "dataType d \<in> set VALID_INPUT_DATA_TYPES" and opt: "options d = None"
    using parseInputAttribute_Some by blast+
  have "parseInputAttribute (encodeInput d)
          = Some \<lparr> dataType = dataType d, required = required d, options = None \<rparr>"
  proof (cases "required d")
    case True
    then show ?thesis
      using parse_canonical_required [OF dt] by (simp add: encodeInput_def)
  next
    case False
    then show ?thesis
      using parse_canonical_optional [OF dt] by (simp add: encodeInput_def)
  qed
  also have "\<lparr> dataType = dataType d, required = required d, options = None \<rparr> = d"
    using opt by simp
  finally show ?thesis .
qed

theorem C7_input_constraint_round_trip_witness:
  "parseInputAttribute ''  Email , REQUIRED ''
     = Some \<lparr> dataType = ''email'', required = True, options = None \<rparr>
   \<and> parseInputAttribute (encodeInput \<lparr> dataType = ''email'', required = True, options = None \<rparr>)
       = Some \<lparr> dataType = ''email'', required = True, options = None \<rparr>"
proof -
  have h: "parseInputAttribute ''  Email , REQUIRED ''
             = Some \<lparr> dataType = ''email'', required = True, options = None \<rparr>"
    by code_simp
  show ?thesis using h C7_input_constraint_round_trip [OF h] by simp
qed

section \<open>Identifiers of the legacy tracker\<close>

lemma undecimal_digit: "d < 10 \<Longrightarrow> (of_char (digit_char d) :: nat) - 48 = d"
  by (simp add: digit_char_def)

lemma undecimal_decimal: "undecimal (decimal n) = n"
proof (induction n rule: decimal.induct)
  case (1 n)
  show ?case
  proof (cases "n < 10")
    case True
    then show ?thesis
      by (simp add: decimal.simps [of n] undecimal_def undecimal_digit)
  next
    case False
    have "undecimal (decimal n) = 10 * undecimal (decimal (n div 10)) + (of_char (digit_char (n mod 10)) - 48)"
      using False by (simp add: decimal.simps [of n] undecimal_def)
    also have "\<dots> = 10 * (n div 10) + n mod 10"
      using 1 False by (simp add: undecimal_digit)
    finally show ?thesis by simp
  qed
qed

lemma decimal_inj: "decimal m = decimal n \<Longrightarrow> m = n"
  by (metis undecimal_decimal)

lemma tracker_start_id:
  "tracker_start e a n t = (operation, t1) \<Longrightarrow>
   op_id operation = ''op-'' @ decimal (Suc (idCounter t)) \<and> idCounter t1 = Suc (idCounter t)"
  by (auto simp: tracker_start_def Let_def)

lemma tracker_complete_counter: "idCounter (tracker_complete i st msg eff n t) = idCounter t"
  by (simp add: tracker_complete_def Let_def split: option.splits)

lemma tracker_clear_counter: "idCounter (tracker_clear t) = idCounter t"
  by (simp add: tracker_clear_def)

lemma op_ids_shift:
  "(''op-'' @ decimal (Suc c)) # map (\<lambda>k. ''op-'' @ decimal (Suc c + k)) [1..<Suc n]
     = map (\<lambda>k. ''op-'' @ decimal (c + k)) [1..<Suc (Suc n)]"
proof -
  have "[1..<Suc (Suc n)] = 1 # map Suc [1..<Suc n]"
    by (simp add: map_Suc_upt upt_conv_Cons del: upt_Suc)
  then show ?thesis by (simp add: comp_def del: upt_Suc)
qed

lemma tracker_run_ids:
  "fst (tracker_run cs t) = map (\<lambda>k. ''op-'' @ decimal (idCounter t + k)) [1..<Suc (starts cs)]
   \<and> idCounter (snd (tracker_run cs t)) = idCounter t + starts cs"
proof (induction cs arbitrary: t)
  case Nil
  then show ?case by (simp add: starts_def)
next
  case (Cons c cs)
  show ?case
  proof (cases c)
    case (Start elementId actionType now)
    obtain operation t1 where st: "tracker_start elementId actionType now t = (operation, t1)"
      by (cases "tracker_start elementId actionType now t")
    from tracker_start_id [OF st] have oid: "op_id operation = ''op-'' @ decimal (Suc (idCounter t))"
      and cnt: "idCounter t1 = Suc (idCounter t)" by simp_all
    have sc: "starts (c # cs) = Suc (starts cs)"
      using Start by (simp add: starts_def)
    have "fst (tracker_run (c # cs) t) = op_id operation # fst (tracker_run cs t1)"
      using Start st by (simp add: split_beta)
    also have "\<dots> = (''op-'' @ decimal (Suc (idCounter t)))
                 # map (\<lambda>k. ''op-'' @ decimal (Suc (idCounter t) + k)) [1..<Suc (starts cs)]"
      using Cons.IH [of t1] oid cnt by simp
    also have "\<dots> = map (\<lambda>k. ''op-'' @ decimal (idCounter t + k)) [1..<Suc (starts (c # cs))]"
      unfolding sc by (rule op_ids_shift)
    finally have ids: "fst (tracker_run (c # cs) t)
        = map (\<lambda>k. ''op-'' @ decimal (idCounter t + k)) [1..<Suc (starts (c # cs))]" .
    have "idCounter (snd (tracker_run (c # cs) t)) = idCounter (snd (tracker_run cs t1))"
      using Start st by (simp add: split_beta)
    then have "idCounter (snd (tracker_run (c # cs) t)) = idCounter t + starts (c # cs)"
      using Cons.IH [of t1] cnt sc by simp
    with ids show ?thesis by simp
  next
    case (Complete ident st msg eff now)
    then show ?thesis
      using Cons.IH [of "tracker_complete ident st msg eff now t"]
      by (simp add: starts_def tracker_complete_counter)
  next
    case (Get ident)
    then show ?thesis using Cons.IH [of t] by (simp add: starts_def)
  next
    case Clear
    then show ?thesis
      using Cons.IH [of "tracker_clear t"] by (simp add: starts_def tracker_clear_counter)
  qed
qed

lemma distinct_op_ids:
  "distinct (map (\<lambda>k. ''op-'' @ decimal (c + k)) [1..<Suc n])"
proof -
  have "inj_on (\<lambda>k. ''op-'' @ decimal (c + k)) (set [1..<Suc n])"
    by (rule inj_onI) (auto dest: decimal_inj)
  then show ?thesis by (simp add: distinct_map del: upt_Suc)
qed

text \<open>
  C9. In every sequence of tracker calls, the \<open>k\<close>-th \<open>start\<close> of the sequence returns
  the identifier \<open>op-<c + k>\<close>, where \<open>c\<close> is the counter before the sequence: the
  number rises by one per call whatever \<open>complete\<close>, \<open>get\<close> and \<open>clear\<close> calls lie in
  between. All identifiers of the sequence differ from each other, and \<open>clear\<close> empties
  the store and leaves the counter as it is.
\<close>

theorem C9_tracker_identifiers:
  "fst (tracker_run cs t) = map (\<lambda>k. ''op-'' @ decimal (idCounter t + k)) [1..<Suc (starts cs)]
   \<and> distinct (fst (tracker_run cs t))
   \<and> operations (tracker_clear t) = []
   \<and> idCounter (tracker_clear t) = idCounter t"
  using tracker_run_ids [of cs t] distinct_op_ids [of "idCounter t" "starts cs"]
  by (simp add: tracker_clear_def del: upt_Suc)

theorem C9_tracker_identifiers_witness:
  "fst (tracker_run [Start ''a'' ''click'' 5, Clear, Start ''b'' ''fill'' 9] tracker_new)
     = [''op-1'', ''op-2'']
   \<and> distinct (fst (tracker_run [Start ''a'' ''click'' 5, Clear, Start ''b'' ''fill'' 9] tracker_new))"
proof -
  have "fst (tracker_run [Start ''a'' ''click'' 5, Clear, Start ''b'' ''fill'' 9] tracker_new)
          = [''op-1'', ''op-2'']"
    by code_simp
  moreover have "distinct (fst (tracker_run [Start ''a'' ''click'' 5, Clear, Start ''b'' ''fill'' 9] tracker_new))"
    using C9_tracker_identifiers
            [of "[Start ''a'' ''click'' 5, Clear, Start ''b'' ''fill'' 9]" tracker_new]
    by blast
  ultimately show ?thesis by (rule conjI)
qed

section \<open>The context reader and its cache\<close>

lemma trim_Nil [simp]: "trim [] = []"
  by (simp add: trim_def)

lemma parse_cached_Some:
  "contextParsed m \<Longrightarrow> cachedContext m = Some c \<Longrightarrow> parseContextScript P doc m = (c, m)"
  by (simp add: parseContextScript_def)

lemma parse_cached_None:
  "contextParsed m \<Longrightarrow> cachedContext m = None \<Longrightarrow>
   parseContextScript P doc m = (length (objects m), m\<lparr> objects := objects m @ [empty_record] \<rparr>)"
  by (simp add: parseContextScript_def allocate_def)

lemma parse_first:
  assumes "\<not> contextParsed m" and "cachedContext m = None"
    and "parseContextScript P doc m = (a, m1)"
  shows "a = length (objects m) \<and> contextParsed m1
         \<and> (\<exists>obj. objects m1 = objects m @ [obj]
               \<and> (cachedContext m1 = Some a \<or> (cachedContext m1 = None \<and> obj = empty_record)))"
  using assms
  by (auto simp: parseContextScript_def allocate_def Let_def
           split: option.splits prod.splits if_splits)

lemma parse_first_unusable:
  assumes "\<not> contextParsed m" and "unusable_metadata P doc"
    and "parseContextScript P doc m = (a, m1)"
  shows "a = length (objects m) \<and> objects m1 = objects m @ [empty_record]"
  using assms
  by (auto simp: parseContextScript_def unusable_metadata_def allocate_def Let_def
           split: option.splits prod.splits if_splits json.splits)


lemma calls_cached_Some:
  "contextParsed m \<Longrightarrow> cachedContext m = Some c \<Longrightarrow>
   getContextMetadata_calls P docs m = (replicate (length docs) c, m)"
  by (induction docs) (simp_all add: getContextMetadata_def parse_cached_Some)

lemma calls_cached_None:
  "contextParsed m \<Longrightarrow> cachedContext m = None \<Longrightarrow>
   getContextMetadata_calls P docs m
     = (map (\<lambda>i. length (objects m) + i) [0..<length docs],
        m\<lparr> objects := objects m @ replicate (length docs) empty_record \<rparr>)"
proof (induction docs arbitrary: m)
  case Nil
  then show ?case by simp
next
  case (Cons doc docs)
  let ?m1 = "m\<lparr> objects := objects m @ [empty_record] \<rparr>"
  have first: "getContextMetadata P doc m = (length (objects m), ?m1)"
    using Cons.prems by (simp add: getContextMetadata_def parse_cached_None)
  have rest: "getContextMetadata_calls P docs ?m1
     = (map (\<lambda>i. length (objects ?m1) + i) [0..<length docs],
        ?m1\<lparr> objects := objects ?m1 @ replicate (length docs) empty_record \<rparr>)"
    using Cons.prems by (intro Cons.IH) simp_all
  have idx: "map (\<lambda>i. length (objects m) + i) [0..<length (doc # docs)]
        = length (objects m) # map (\<lambda>i. length (objects ?m1) + i) [0..<length docs]"
    by (simp add: upt_conv_Cons map_Suc_upt [symmetric] del: upt_Suc)
  show ?case
    unfolding idx using first rest by (simp add: replicate_app_Cons_same)
qed

lemma distinct_fresh: "distinct (map (\<lambda>i. (n::nat) + i) [0..<k])"
  by (simp add: distinct_map inj_on_def)

text \<open>
  C6 (as amended). The module state \<open>m\<close> is any state the module can be in: nothing is
  cached unless a parse has been attempted. First, when no parse has been attempted since
  the start or the last \<open>clearContextCache\<close>, and the document has no metadata block, or
  one that is empty, white space, malformed JSON or JSON other than an object, the
  reader returns an empty record (the model has no throwing path). Second, in a sequence
  of reader calls with no invalidation in between, every later call returns a record
  with the contents of the first; it is the same object as the first whenever a parsed
  object is cached, and otherwise every call returns a fresh empty object of its own.
\<close>

theorem C6_context_reader:
  assumes inv: "contextParsed m \<or> cachedContext m = None"
  shows "(\<not> contextParsed m \<and> unusable_metadata P doc \<longrightarrow>
            objects (snd (getContextMetadata P doc m)) ! fst (getContextMetadata P doc m) = empty_record)
       \<and> (getContextMetadata_calls P (doc # docs) m = (a # as, m') \<longrightarrow>
            (\<forall>b \<in> set as. objects m' ! b = objects m' ! a)
          \<and> (cachedContext m' = Some a \<longrightarrow> (\<forall>b \<in> set as. b = a))
          \<and> (cachedContext m' \<noteq> Some a \<longrightarrow>
                distinct (a # as) \<and> (\<forall>b \<in> set (a # as). objects m' ! b = empty_record)))"
proof (intro conjI impI)
  assume h: "\<not> contextParsed m \<and> unusable_metadata P doc"
  obtain a1 m1 where p: "parseContextScript P doc m = (a1, m1)"
    by (cases "parseContextScript P doc m")
  from parse_first_unusable [OF _ _ p] h
  show "objects (snd (getContextMetadata P doc m)) ! fst (getContextMetadata P doc m) = empty_record"
    by (simp add: getContextMetadata_def p)
next
  assume run: "getContextMetadata_calls P (doc # docs) m = (a # as, m')"
  obtain a1 m1 where p: "getContextMetadata P doc m = (a1, m1)"
    by (cases "getContextMetadata P doc m")
  obtain as1 m2 where r: "getContextMetadata_calls P docs m1 = (as1, m2)"
    by (cases "getContextMetadata_calls P docs m1")
  from run p r have eqs: "a = a1" "as = as1" "m' = m2" by simp_all
  have facts: "(\<forall>b \<in> set as. objects m' ! b = objects m' ! a)
          \<and> (cachedContext m' = Some a \<longrightarrow> (\<forall>b \<in> set as. b = a))
          \<and> (cachedContext m' \<noteq> Some a \<longrightarrow>
                distinct (a # as) \<and> (\<forall>b \<in> set (a # as). objects m' ! b = empty_record))"
  proof (cases "contextParsed m")
    case True
    show ?thesis
    proof (cases "cachedContext m")
      case None
      have "(a # as, m') = (map (\<lambda>i. length (objects m) + i) [0..<length (doc # docs)],
          m\<lparr> objects := objects m @ replicate (length (doc # docs)) empty_record \<rparr>)"
        by (rule trans [OF run [symmetric] calls_cached_None [OF True None]])
      then have as_eq: "a # as = map (\<lambda>i. length (objects m) + i) [0..<length (doc # docs)]"
        and m'_eq: "m' = m\<lparr> objects := objects m @ replicate (length (doc # docs)) empty_record \<rparr>"
        by (simp_all only: prod.inject)
      have d: "distinct (a # as)" unfolding as_eq by (rule distinct_fresh)
      have e: "\<forall>b \<in> set (a # as). objects m' ! b = empty_record"
        unfolding as_eq m'_eq by (auto simp: nth_append simp del: upt_Suc replicate_Suc)
      have c: "cachedContext m' = None" using None m'_eq by simp
      from d e c show ?thesis by auto
    next
      case (Some c)
      have "(a # as, m') = (replicate (length (doc # docs)) c, m)"
        by (rule trans [OF run [symmetric] calls_cached_Some [OF True Some]])
      then have "a # as = replicate (length (doc # docs)) c" and "m' = m" by simp_all
      then have "a = c" and "\<forall>b \<in> set as. b = c" and "cachedContext m' = Some a"
        using Some by auto
      then show ?thesis by auto
    qed
  next
    case False
    with inv have cn: "cachedContext m = None" by simp
    from p have p': "parseContextScript P doc m = (a1, m1)" by (simp add: getContextMetadata_def)
    from parse_first [OF False cn p'] obtain obj where
      a1: "a1 = length (objects m)" and cp: "contextParsed m1"
      and ob: "objects m1 = objects m @ [obj]"
      and cc: "cachedContext m1 = Some a1 \<or> (cachedContext m1 = None \<and> obj = empty_record)"
      by blast
    from cc show ?thesis
    proof
      assume s: "cachedContext m1 = Some a1"
      from calls_cached_Some [OF cp s, of P docs] r
      have "as1 = replicate (length docs) a1" and "m2 = m1" by simp_all
      with eqs s show ?thesis by auto
    next
      assume n: "cachedContext m1 = None \<and> obj = empty_record"
      from calls_cached_None [OF cp, of P docs] n r
      have as_eq: "as1 = map (\<lambda>i. length (objects m1) + i) [0..<length docs]"
        and m2_eq: "m2 = m1\<lparr> objects := objects m1 @ replicate (length docs) empty_record \<rparr>"
        by simp_all
      have len: "length (objects m1) = Suc a1" using ob a1 by simp
      have d: "distinct (a # as)"
        using eqs as_eq len by (auto simp: distinct_map inj_on_def simp del: upt_Suc)
      have e: "\<forall>b \<in> set (a # as). objects m' ! b = empty_record"
        using eqs as_eq m2_eq ob a1 n by (auto simp: nth_append simp del: upt_Suc replicate_Suc)
      have c: "cachedContext m' \<noteq> Some a" using eqs m2_eq n by simp
      from d e c show ?thesis by auto
    qed
  qed
  from facts show "\<forall>b \<in> set as. objects m' ! b = objects m' ! a" by blast
  from facts show "cachedContext m' = Some a \<Longrightarrow> \<forall>b \<in> set as. b = a" by blast
  from facts show "cachedContext m' \<noteq> Some a \<Longrightarrow> distinct (a # as)" by blast
  from facts show "cachedContext m' \<noteq> Some a \<Longrightarrow> \<forall>b \<in> set (a # as). objects m' ! b = empty_record" by blast
qed

theorem C6_context_reader_witness:
  "(contextParsed context_initial \<or> cachedContext context_initial = None)
   \<and> (\<not> contextParsed context_initial
        \<and> unusable_metadata sample_JSON_parse (Some page_without_metadata))
   \<and> objects (snd (getContextMetadata sample_JSON_parse (Some page_without_metadata) context_initial))
         ! fst (getContextMetadata sample_JSON_parse (Some page_without_metadata) context_initial)
       = empty_record
   \<and> fst (getContextMetadata_calls sample_JSON_parse
             [Some page_with_metadata, Some page_without_metadata] context_initial) = [0, 0]"
proof -
  have h1: "contextParsed context_initial \<or> cachedContext context_initial = None"
    by (simp add: context_initial_def)
  have h2: "\<not> contextParsed context_initial
            \<and> unusable_metadata sample_JSON_parse (Some page_without_metadata)"
    by code_simp
  have c1: "objects (snd (getContextMetadata sample_JSON_parse (Some page_without_metadata) context_initial))
         ! fst (getContextMetadata sample_JSON_parse (Some page_without_metadata) context_initial)
       = empty_record"
    using C6_context_reader [OF h1, of sample_JSON_parse "Some page_without_metadata"] h2
    by blast
  have c2: "fst (getContextMetadata_calls sample_JSON_parse
             [Some page_with_metadata, Some page_without_metadata] context_initial) = [0, 0]"
    by code_simp
  from h1 h2 c1 c2 show ?thesis by blast
qed

text \<open>
  The claim as stated fails where nothing usable is parsed: on a page without a metadata
  block, two calls in a row, with no invalidation between them, return two different
  objects (addresses 0 and 1).
\<close>

theorem C6_same_reference_counterexample:
  "unusable_metadata sample_JSON_parse (Some page_without_metadata)
   \<and> fst (getContextMetadata_calls sample_JSON_parse
             [Some page_without_metadata, Some page_without_metadata] context_initial) = [0, 1]"
  by code_simp

section \<open>One action descriptor per registered element\<close>

lemma fold_preserves:
  assumes "\<And>x s. Q s \<Longrightarrow> Q (f x s)" and "Q s"
  shows "Q (fold f xs s)"
  using assms(2) by (induction xs arbitrary: s) (simp_all add: assms(1))

lemma set_AList_update: "set (AList.update k v al) \<subseteq> insert (k, v) (set al)"
  by (induction al) auto

lemma set_AList_delete: "set (AList.delete k al) \<subseteq> set al"
  by (auto simp: AList.delete_eq)

lemma parseAttributes_action:
  assumes "parseAttributes P node = Some attrs"
  shows "pa_action attrs \<in> set VALID_ACTION_TYPES"
proof -
  have click: "''click'' \<in> set VALID_ACTION_TYPES"
    by (simp add: VALID_ACTION_TYPES_def)
  from assms show ?thesis
    unfolding parseAttributes_def Let_def
    by (cases "truthy (getAttribute node ''data-sid'')";
        cases "truthy (getAttribute node ''data-sid-action'')")
       (auto simp: isValidActionType_def click)
qed

lemma parseAttributes_id:
  assumes "parseAttributes P node = Some attrs"
  shows "truthy (getAttribute node ''data-sid'') = Some (pa_id attrs)"
  using assms unfolding parseAttributes_def Let_def
  by (cases "truthy (getAttribute node ''data-sid'')") auto

lemma parseAndSet_from_node:
  assumes "\<forall>x \<in> set (elements r). from_node P x"
  shows "\<forall>x \<in> set (elements (parseAndSet P el r)). from_node P x"
proof (cases "parseAttributes P el")
  case None
  then show ?thesis using assms by (simp add: parseAndSet_def parseElement_def)
next
  case (Some attrs)
  then have "from_node P (pa_id attrs, convertToSIDElement attrs)"
    unfolding from_node_def by auto
  moreover have "elements (parseAndSet P el r)
      = AList.update (pa_id attrs) (convertToSIDElement attrs) (elements r)"
    using Some by (simp add: parseAndSet_def parseElement_def convertToSIDElement_def)
  ultimately show ?thesis
    using assms set_AList_update [of "pa_id attrs" "convertToSIDElement attrs" "elements r"]
    by auto
qed

lemma fold_parseAndSet_from_node:
  "\<forall>x \<in> set (elements r). from_node P x \<Longrightarrow>
   \<forall>x \<in> set (elements (fold (parseAndSet P) els r)). from_node P x"
  by (rule fold_preserves [where Q = "\<lambda>r. \<forall>x \<in> set (elements r). from_node P x"])
     (rule parseAndSet_from_node, assumption+)

lemma scanDocument_from_node: "\<forall>x \<in> set (elements (scanDocument P doc r)). from_node P x"
  unfolding scanDocument_def by (rule fold_parseAndSet_from_node) simp

lemma handleAddedNode_from_node:
  "\<forall>x \<in> set (elements r). from_node P x \<Longrightarrow>
   \<forall>x \<in> set (elements (handleAddedNode P node r)). from_node P x"
  unfolding handleAddedNode_def Let_def
  by (rule fold_parseAndSet_from_node) (simp add: parseAndSet_from_node)

lemma deleteById_from_node:
  "\<forall>x \<in> set (elements r). from_node P x \<Longrightarrow>
   \<forall>x \<in> set (elements (deleteById el r)). from_node P x"
  using set_AList_delete by (fastforce simp: deleteById_def split: option.splits)

lemma fold_deleteById_from_node:
  "\<forall>x \<in> set (elements r). from_node P x \<Longrightarrow>
   \<forall>x \<in> set (elements (fold deleteById els r)). from_node P x"
  by (rule fold_preserves [where Q = "\<lambda>r. \<forall>x \<in> set (elements r). from_node P x"])
     (rule deleteById_from_node, assumption+)

lemma handleRemovedNode_from_node:
  "\<forall>x \<in> set (elements r). from_node P x \<Longrightarrow>
   \<forall>x \<in> set (elements (handleRemovedNode node r)). from_node P x"
  unfolding handleRemovedNode_def
  by (rule fold_deleteById_from_node) (rule deleteById_from_node)

lemma handleAttributeChange_from_node:
  assumes "\<forall>x \<in> set (elements r). from_node P x"
  shows "\<forall>x \<in> set (elements (handleAttributeChange P doc el target name r)). from_node P x"
proof -
  have d: "\<And>k. \<forall>x \<in> set (AList.delete k (elements r)). from_node P x"
    using assms set_AList_delete by fastforce
  show ?thesis
    unfolding handleAttributeChange_def
    using assms d parseAndSet_from_node [OF assms, of el]
    by (simp split: option.splits)
qed

lemma fold_handleAddedNode_from_node:
  "\<forall>x \<in> set (elements r). from_node P x \<Longrightarrow>
   \<forall>x \<in> set (elements (fold (handleAddedNode P) ns r)). from_node P x"
  by (rule fold_preserves [where Q = "\<lambda>r. \<forall>x \<in> set (elements r). from_node P x"])
     (rule handleAddedNode_from_node, assumption+)

lemma fold_handleRemovedNode_from_node:
  "\<forall>x \<in> set (elements r). from_node P x \<Longrightarrow>
   \<forall>x \<in> set (elements (fold handleRemovedNode ns r)). from_node P x"
  by (rule fold_preserves [where Q = "\<lambda>r. \<forall>x \<in> set (elements r). from_node P x"])
     (rule handleRemovedNode_from_node, assumption+)

lemma handleMutation_from_node:
  assumes "\<forall>x \<in> set (elements r). from_node P x"
  shows "\<forall>x \<in> set (elements (handleMutation P doc mu r)). from_node P x"
proof (cases mu)
  case (ChildList addedNodes removedNodes)
  have "\<forall>x \<in> set (elements (fold (handleAddedNode P) addedNodes r)). from_node P x"
    using assms by (rule fold_handleAddedNode_from_node)
  then have "\<forall>x \<in> set (elements (fold handleRemovedNode removedNodes
                 (fold (handleAddedNode P) addedNodes r))). from_node P x"
    by (rule fold_handleRemovedNode_from_node)
  then show ?thesis using ChildList by simp
next
  case (AttributesChanged element target attributeName)
  then show ?thesis
    using handleAttributeChange_from_node [OF assms] by simp
qed

lemma handleMutations_from_node:
  "\<forall>x \<in> set (elements r). from_node P x \<Longrightarrow>
   \<forall>x \<in> set (elements (handleMutations P doc mus r)). from_node P x"
  unfolding handleMutations_def
  by (rule fold_preserves [where Q = "\<lambda>r. \<forall>x \<in> set (elements r). from_node P x"])
     (rule handleMutation_from_node, assumption+)

lemma registry_step_from_node:
  assumes "\<forall>x \<in> set (elements r). from_node P x"
  shows "\<forall>x \<in> set (elements (registry_step P c r)). from_node P x"
proof (cases c)
  case (CallScanDocument doc)
  then show ?thesis using scanDocument_from_node [of P doc r] by simp
next
  case (ObserverCallback doc mutations)
  then show ?thesis using assms handleMutations_from_node [OF assms, of doc mutations] by simp
next
  case CallStartObserving
  then show ?thesis using assms by (simp add: startObserving_def)
next
  case CallDestroy
  then show ?thesis by (simp add: registry_destroy_def)
qed

lemma registry_run_from_node:
  "\<forall>x \<in> set (elements r). from_node P x \<Longrightarrow>
   \<forall>x \<in> set (elements (registry_run P cs r)). from_node P x"
  unfolding registry_run_def
  by (rule fold_preserves [where Q = "\<lambda>r. \<forall>x \<in> set (elements r). from_node P x"])
     (rule registry_step_from_node, assumption+)

lemma ElementRegistry_new_from_node:
  "\<forall>x \<in> set (elements (ElementRegistry_new P doc obs)). from_node P x"
  using scanDocument_from_node [of P doc]
  by (simp add: ElementRegistry_new_def Let_def startObserving_def)

text \<open>
  C10. Whatever the registry holds after its construction and any sequence of rescans,
  observer callbacks (added nodes, removed nodes, attribute changes), \<open>startObserving\<close>
  and \<open>destroy\<close> calls: every stored element description was converted from the
  attributes parsed from a node, is stored under its own identifier, and its list of
  action descriptors has exactly one entry, whose kind is the action kind parsed from
  that node (one of the six kinds of the enumeration).
\<close>

theorem C10_one_action_per_element:
  assumes "(ident, e) \<in> set (elements (registry_run P calls (ElementRegistry_new P doc observeDOM)))"
  shows "\<exists>node attrs. parseAttributes P node = Some attrs
           \<and> sid_id e = ident \<and> pa_id attrs = ident
           \<and> sid_actions e = [createActionDefinition attrs]
           \<and> ad_type (createActionDefinition attrs) = pa_action attrs
           \<and> pa_action attrs \<in> set VALID_ACTION_TYPES
           \<and> length (sid_actions e) = 1"
proof -
  from registry_run_from_node [OF ElementRegistry_new_from_node] assms
  have "from_node P (ident, e)" by blast
  then obtain node attrs where pa: "parseAttributes P node = Some attrs"
    and e: "e = convertToSIDElement attrs" and i: "ident = pa_id attrs"
    unfolding from_node_def by auto
  from parseAttributes_action [OF pa] pa e i show ?thesis
    by (auto simp: convertToSIDElement_def createActionDefinition_def)
qed

theorem C10_one_action_per_element_witness:
  "map (\<lambda>x. (fst x, map ad_type (sid_actions (snd x))))
       (elements (registry_run sample_JSON_parse
          [ObserverCallback shop_page
             [ChildList [Element ''select'' [(''data-sid'', ''size''), (''data-sid-action'', ''select'')]
                           no_props []] [],
              AttributesChanged
                (Element ''button'' [(''data-sid'', ''save''), (''data-sid-action'', ''bogus'')]
                   no_props []) (Some [0, 0]) (Some ''data-sid-action'')]]
          (ElementRegistry_new sample_JSON_parse shop_page True)))
     = [(''save'', [''click'']), (''email'', [''fill'']), (''locked'', [''click'']),
        (''home'', [''click'']), (''menu'', [''hover'']), (''size'', [''select''])]
   \<and> length (sid_actions (snd (elements (registry_run sample_JSON_parse
          [ObserverCallback shop_page
             [ChildList [Element ''select'' [(''data-sid'', ''size''), (''data-sid-action'', ''select'')]
                           no_props []] [],
              AttributesChanged
                (Element ''button'' [(''data-sid'', ''save''), (''data-sid-action'', ''bogus'')]
                   no_props []) (Some [0, 0]) (Some ''data-sid-action'')]]
          (ElementRegistry_new sample_JSON_parse shop_page True)) ! 5))) = 1"
  (is "map ?f (elements ?R) = ?L \<and> length (sid_actions (snd (elements ?R ! 5))) = 1")
proof -
  have m: "map ?f (elements ?R) = ?L"
    by code_simp
  then have "length (map ?f (elements ?R)) = 6" by simp
  then have "5 < length (elements ?R)" by simp
  then have "elements ?R ! 5 \<in> set (elements ?R)" by (rule nth_mem)
  then have "(fst (elements ?R ! 5), snd (elements ?R ! 5)) \<in> set (elements ?R)" by simp
  from C10_one_action_per_element [OF this]
  have "length (sid_actions (snd (elements ?R ! 5))) = 1" by blast
  with m show ?thesis by (rule conjI)
qed

section \<open>The executor: bookkeeping lemmas\<close>

lemma return_result_fields:
  "return_result r s = (p, s') \<Longrightarrow>
   p = length (promises s) \<and> promises s' = promises s @ [Fulfilled r] \<and> timers s' = timers s
   \<and> next_timer s' = next_timer s \<and> pendingOperations s' = pendingOperations s
   \<and> now s' = now s \<and> registry s' = registry s \<and> document s' = document s"
  by (auto simp: return_result_def)

lemma trigger_and_return_fields:
  "trigger_and_return el domElement action st msg s = (p, s') \<Longrightarrow>
   p = length (promises s) \<and> (\<exists>r. promises s' = promises s @ [Fulfilled r]) \<and> timers s' = timers s
   \<and> next_timer s' = next_timer s \<and> pendingOperations s' = pendingOperations s
   \<and> now s' = now s \<and> registry s' = registry s"
  by (auto simp: trigger_and_return_def return_result_def split: sum.splits)

lemma execute_fields:
  assumes "execute P ident action opts s = (p, s')"
  shows "p = length (promises s) \<and> now s' = now s \<and> registry s' = registry s
     \<and> ((\<exists>r. promises s' = promises s @ [Fulfilled r] \<and> timers s' = timers s
             \<and> next_timer s' = next_timer s \<and> pendingOperations s' = pendingOperations s)
        \<or> (promises s' = promises s @ [Pending]
             \<and> timers s' = timers s @ [new_timer s ident opts]
             \<and> next_timer s' = Suc (next_timer s)
             \<and> pendingOperations s' = AList.update ident (new_pending s ident) (pendingOperations s))
        \<or> (\<exists>e. promises s' = promises s @ [Fulfilled (failed_result e)]
             \<and> timers s' = AList.delete (next_timer s) (timers s @ [new_timer s ident opts])
             \<and> next_timer s' = Suc (next_timer s)
             \<and> pendingOperations s'
                 = AList.delete ident (AList.update ident (new_pending s ident) (pendingOperations s))))"
proof (cases "registry_get (registry s) ident")
  case None
  with assms have "return_result (error_result (''Element not found: '' @ ident)) s = (p, s')"
    by (simp add: execute_def)
  from return_result_fields [OF this] show ?thesis by auto
next
  case (Some sidElement)
  show ?thesis
  proof (cases "sid_disabled sidElement")
    case True
    with Some assms obtain r where "return_result r s = (p, s')"
      by (simp add: execute_def)
    from return_result_fields [OF this] show ?thesis by auto
  next
    case False
    show ?thesis
    proof (cases "querySelector (document s) (sid_selector sidElement)")
      case None
      with Some False assms
      have "return_result (error_result (''Element not found in DOM: '' @ ident)) s = (p, s')"
        by (simp add: execute_def)
      from return_result_fields [OF this] show ?thesis by auto
    next
      case (Some found)
      obtain el domElement where found: "found = (el, domElement)" by (cases found)
      let ?t = "tracking_of P domElement"
      consider (imm) "?t = ''none'' \<or> ?t = ''navigation'' \<or> ?t = ''external''"
        | (asy) "?t \<noteq> ''none''" "?t \<noteq> ''navigation''" "?t \<noteq> ''external''" by blast
      then show ?thesis
      proof cases
        case imm
        with \<open>registry_get (registry s) ident = Some sidElement\<close> False Some found assms
        obtain st msg where "trigger_and_return el domElement action st msg s = (p, s')"
          by (auto simp: execute_def Let_def split: if_splits)
        from trigger_and_return_fields [OF this] show ?thesis by auto
      next
        case asy
        show ?thesis
        proof (cases "triggerAction (document s) el domElement action")
          case (Inl e)
          with asy \<open>registry_get (registry s) ident = Some sidElement\<close> False Some found assms
          show ?thesis
            by (auto simp: execute_def Let_def new_promise_def setTimeout_def clearTimeout_def
                  resolve_promise_def new_timer_def new_pending_def nth_append)
        next
          case (Inr doc')
          with asy \<open>registry_get (registry s) ident = Some sidElement\<close> False Some found assms
          show ?thesis
            by (auto simp: execute_def Let_def new_promise_def setTimeout_def
                  new_timer_def new_pending_def)
        qed
      qed
    qed
  qed
qed

lemma map_of_snoc:
  "map_of (ts @ [(k, v)]) j = (case map_of ts j of Some x \<Rightarrow> Some x | None \<Rightarrow> if j = k then Some v else None)"
  by (simp add: map_of_append map_add_def split: option.splits)

lemma consistent_fresh: "consistent s \<Longrightarrow> map_of (timers s) (next_timer s) = None"
  unfolding consistent_def by (cases "map_of (timers s) (next_timer s)") auto

lemma consistent_fields:
  assumes "timers s' = timers s" "next_timer s' = next_timer s" "promises s' = promises s"
    "pendingOperations s' = pendingOperations s"
  shows "consistent s' = consistent s"
  by (simp add: consistent_def assms)

lemma consistent_returned:
  assumes c: "consistent s"
    and "promises s' = promises s @ [x]" "timers s' = timers s" "next_timer s' = next_timer s"
    "pendingOperations s' = pendingOperations s"
  shows "consistent s'"
  using c unfolding consistent_def assms
  by (auto simp: nth_append less_Suc_eq)

lemma consistent_registered:
  assumes c: "consistent s"
    and pr: "promises s' = promises s @ [Pending]"
    and tm: "timers s' = timers s @ [new_timer s ident opts]"
    and nx: "next_timer s' = Suc (next_timer s)"
    and pe: "pendingOperations s' = AList.update ident (new_pending s ident) (pendingOperations s)"
  shows "consistent s'"
proof -
  have fresh: "map_of (timers s) (next_timer s) = None" by (rule consistent_fresh [OF c])
  have mt: "\<And>j. map_of (timers s') j
      = (if j = next_timer s then Some (snd (new_timer s ident opts)) else map_of (timers s) j)"
    using fresh by (auto simp: tm new_timer_def map_of_snoc simp del: map_of_append split: option.splits)
  have mp: "\<And>j. map_of (pendingOperations s') j
      = (if j = ident then Some (new_pending s ident) else map_of (pendingOperations s) j)"
    by (simp add: pe update_conv')
  have old: "\<And>tid tm. map_of (timers s) tid = Some tm \<Longrightarrow>
      tid < next_timer s \<and> cb_promise (callback tm) < length (promises s)
      \<and> promises s ! cb_promise (callback tm) = Pending"
    using c unfolding consistent_def by blast
  have uniq: "\<And>tid tid' tm tm'. map_of (timers s) tid = Some tm \<Longrightarrow> map_of (timers s) tid' = Some tm'
      \<Longrightarrow> cb_promise (callback tm) = cb_promise (callback tm') \<Longrightarrow> tid = tid'"
    using c unfolding consistent_def by blast
  have ent: "\<And>i po. map_of (pendingOperations s) i = Some po \<Longrightarrow>
      \<exists>p d dl. resolve po = Resolver (timeoutId po) i p
        \<and> map_of (timers s) (timeoutId po) = Some \<lparr> deadline = dl, callback = TimeoutCallback i p d \<rparr>"
    using c unfolding consistent_def by blast
  have A: "\<forall>tid tm. map_of (timers s') tid = Some tm \<longrightarrow>
          tid < next_timer s' \<and> cb_promise (callback tm) < length (promises s')
          \<and> promises s' ! cb_promise (callback tm) = Pending"
  proof (intro allI impI)
    fix tid tm assume "map_of (timers s') tid = Some tm"
    then show "tid < next_timer s' \<and> cb_promise (callback tm) < length (promises s')
        \<and> promises s' ! cb_promise (callback tm) = Pending"
      using old [of tid tm]
      by (auto simp: mt nx pr new_timer_def nth_append split: if_splits)
  qed
  have B: "\<forall>tid tid' tm tm'. map_of (timers s') tid = Some tm \<and> map_of (timers s') tid' = Some tm'
            \<and> cb_promise (callback tm) = cb_promise (callback tm') \<longrightarrow> tid = tid'"
  proof (intro allI impI)
    fix tid tid' tm tm'
    assume "map_of (timers s') tid = Some tm \<and> map_of (timers s') tid' = Some tm'
        \<and> cb_promise (callback tm) = cb_promise (callback tm')"
    then show "tid = tid'"
      using old [of tid tm] old [of tid' tm'] uniq [of tid tm tid' tm']
      by (auto simp: mt new_timer_def split: if_splits)
  qed
  have C: "\<forall>i po. map_of (pendingOperations s') i = Some po \<longrightarrow>
            (\<exists>p d dl. resolve po = Resolver (timeoutId po) i p
               \<and> map_of (timers s') (timeoutId po)
                   = Some \<lparr> deadline = dl, callback = TimeoutCallback i p d \<rparr>)"
  proof (intro allI impI)
    fix i po assume a: "map_of (pendingOperations s') i = Some po"
    show "\<exists>p d dl. resolve po = Resolver (timeoutId po) i p
        \<and> map_of (timers s') (timeoutId po) = Some \<lparr> deadline = dl, callback = TimeoutCallback i p d \<rparr>"
    proof (cases "i = ident")
      case True
      with a have "po = new_pending s ident" by (simp add: mp)
      then show ?thesis using True by (simp add: mt new_pending_def new_timer_def)
    next
      case False
      with a have "map_of (pendingOperations s) i = Some po" by (simp add: mp)
      from ent [OF this] obtain p d dl where r: "resolve po = Resolver (timeoutId po) i p"
        and t: "map_of (timers s) (timeoutId po) = Some \<lparr> deadline = dl, callback = TimeoutCallback i p d \<rparr>"
        by blast
      from old [OF t] have "timeoutId po \<noteq> next_timer s" by auto
      with r t show ?thesis by (simp add: mt)
    qed
  qed
  from A B C show ?thesis unfolding consistent_def by (intro conjI)
qed

lemma consistent_caught:
  assumes c: "consistent s"
    and pr: "promises s' = promises s @ [x]"
    and tm: "timers s' = AList.delete (next_timer s) (timers s @ [new_timer s ident opts])"
    and nx: "next_timer s' = Suc (next_timer s)"
    and pe: "pendingOperations s'
                 = AList.delete ident (AList.update ident (new_pending s ident) (pendingOperations s))"
  shows "consistent s'"
proof -
  have fresh: "map_of (timers s) (next_timer s) = None" by (rule consistent_fresh [OF c])
  have mt: "map_of (timers s') = map_of (timers s)"
    using fresh
    by (auto simp: tm new_timer_def delete_conv' map_of_snoc fun_eq_iff simp del: map_of_append
             split: option.splits)
  have mp: "\<And>j. map_of (pendingOperations s') j
      = (if j = ident then None else map_of (pendingOperations s) j)"
    by (simp add: pe delete_conv' update_conv')
  show ?thesis
    using c unfolding consistent_def mt
    by (auto simp: mp pr nx nth_append less_Suc_eq split: if_splits)
qed

lemma consistent_execute:
  assumes "consistent s" and "execute P ident action opts s = (p, s')"
  shows "consistent s'"
  using execute_fields [OF assms(2)] assms(1)
  by (auto intro: consistent_returned consistent_registered consistent_caught)

lemma consistent_settle:
  assumes c: "consistent s"
    and t: "map_of (timers s) tid = Some \<lparr> deadline = dl, callback = TimeoutCallback i p d \<rparr>"
    and tm: "timers s' = AList.delete tid (timers s)"
    and pe: "pendingOperations s' = AList.delete i (pendingOperations s)"
    and pr: "promises s' = (promises s)[p := x]"
    and nx: "next_timer s' = next_timer s"
  shows "consistent s'"
proof -
  have mt: "\<And>j. map_of (timers s') j = (if j = tid then None else map_of (timers s) j)"
    by (simp add: tm delete_conv')
  have mp: "\<And>j. map_of (pendingOperations s') j
      = (if j = i then None else map_of (pendingOperations s) j)"
    by (simp add: pe delete_conv')
  have old: "\<And>tid tm. map_of (timers s) tid = Some tm \<Longrightarrow>
      tid < next_timer s \<and> cb_promise (callback tm) < length (promises s)
      \<and> promises s ! cb_promise (callback tm) = Pending"
    using c unfolding consistent_def by blast
  have uniq: "\<And>tid tid' tm tm'. map_of (timers s) tid = Some tm \<Longrightarrow> map_of (timers s) tid' = Some tm'
      \<Longrightarrow> cb_promise (callback tm) = cb_promise (callback tm') \<Longrightarrow> tid = tid'"
    using c unfolding consistent_def by blast
  have ent: "\<And>i po. map_of (pendingOperations s) i = Some po \<Longrightarrow>
      \<exists>p d dl. resolve po = Resolver (timeoutId po) i p
        \<and> map_of (timers s) (timeoutId po) = Some \<lparr> deadline = dl, callback = TimeoutCallback i p d \<rparr>"
    using c unfolding consistent_def by blast
  have A: "\<forall>tid tm. map_of (timers s') tid = Some tm \<longrightarrow>
          tid < next_timer s' \<and> cb_promise (callback tm) < length (promises s')
          \<and> promises s' ! cb_promise (callback tm) = Pending"
  proof (intro allI impI)
    fix tid' tm' assume a: "map_of (timers s') tid' = Some tm'"
    then have ne: "tid' \<noteq> tid" and o: "map_of (timers s) tid' = Some tm'"
      by (auto simp: mt split: if_splits)
    from uniq [OF o t] ne have "cb_promise (callback tm') \<noteq> p" by auto
    with old [OF o] show "tid' < next_timer s' \<and> cb_promise (callback tm') < length (promises s')
        \<and> promises s' ! cb_promise (callback tm') = Pending"
      by (simp add: nx pr)
  qed
  have B: "\<forall>tid tid' tm tm'. map_of (timers s') tid = Some tm \<and> map_of (timers s') tid' = Some tm'
            \<and> cb_promise (callback tm) = cb_promise (callback tm') \<longrightarrow> tid = tid'"
    using uniq by (auto simp: mt split: if_splits)
  have C: "\<forall>i po. map_of (pendingOperations s') i = Some po \<longrightarrow>
            (\<exists>p d dl. resolve po = Resolver (timeoutId po) i p
               \<and> map_of (timers s') (timeoutId po)
                   = Some \<lparr> deadline = dl, callback = TimeoutCallback i p d \<rparr>)"
  proof (intro allI impI)
    fix j po assume a: "map_of (pendingOperations s') j = Some po"
    then have ne: "j \<noteq> i" and o: "map_of (pendingOperations s) j = Some po"
      by (auto simp: mp split: if_splits)
    from ent [OF o] obtain q e dl' where r: "resolve po = Resolver (timeoutId po) j q"
      and tt: "map_of (timers s) (timeoutId po) = Some \<lparr> deadline = dl', callback = TimeoutCallback j q e \<rparr>"
      by blast
    have "timeoutId po \<noteq> tid" using tt t ne by auto
    with r tt show "\<exists>p d dl. resolve po = Resolver (timeoutId po) j p
        \<and> map_of (timers s') (timeoutId po) = Some \<lparr> deadline = dl, callback = TimeoutCallback j p d \<rparr>"
      by (simp add: mt)
  qed
  from A B C show ?thesis unfolding consistent_def by (intro conjI)
qed

lemma timer_shape: "\<exists>dl i p d. tm = \<lparr> deadline = dl, callback = TimeoutCallback i p d \<rparr>"
proof (cases "callback tm")
  case (TimeoutCallback i p d)
  then have "tm = \<lparr> deadline = deadline tm, callback = TimeoutCallback i p d \<rparr>"
    by (cases tm) simp
  then show ?thesis by blast
qed

lemma fire_timer_fields:
  assumes c: "consistent s"
    and t: "map_of (timers s) tid = Some \<lparr> deadline = dl, callback = TimeoutCallback i p d \<rparr>"
  shows "timers (fire_timer tid s) = AList.delete tid (timers s)
       \<and> pendingOperations (fire_timer tid s) = AList.delete i (pendingOperations s)
       \<and> promises (fire_timer tid s) = (promises s)[p := Fulfilled (timeout_result d)]
       \<and> next_timer (fire_timer tid s) = next_timer s \<and> now (fire_timer tid s) = now s
       \<and> registry (fire_timer tid s) = registry s \<and> document (fire_timer tid s) = document s"
proof -
  from c t have "p < length (promises s) \<and> promises s ! p = Pending"
    unfolding consistent_def by fastforce
  then show ?thesis using t by (simp add: fire_timer_def resolve_promise_def)
qed

lemma fire_timer_idle: "map_of (timers s) tid = None \<Longrightarrow> fire_timer tid s = s"
  by (simp add: fire_timer_def)

lemma consistent_fire_timer:
  assumes c: "consistent s"
  shows "consistent (fire_timer tid s)"
proof (cases "map_of (timers s) tid")
  case None
  then show ?thesis using c by (simp add: fire_timer_idle)
next
  case (Some tm)
  from timer_shape [of tm] obtain dl i p d
    where tm: "tm = \<lparr> deadline = dl, callback = TimeoutCallback i p d \<rparr>" by blast
  from Some tm have t: "map_of (timers s) tid = Some \<lparr> deadline = dl, callback = TimeoutCallback i p d \<rparr>"
    by simp
  from fire_timer_fields [OF c t] show ?thesis
    by (intro consistent_settle [OF c t]) simp_all
qed

lemma complete_idle: "map_of (pendingOperations s) j = None \<Longrightarrow> complete j r s = s"
  by (simp add: complete_def)

lemma complete_fields:
  assumes c: "consistent s"
    and e: "map_of (pendingOperations s) j = Some po"
  shows "\<exists>p d dl. resolve po = Resolver (timeoutId po) j p
       \<and> map_of (timers s) (timeoutId po) = Some \<lparr> deadline = dl, callback = TimeoutCallback j p d \<rparr>
       \<and> p < length (promises s) \<and> promises s ! p = Pending
       \<and> timers (complete j r s) = AList.delete (timeoutId po) (timers s)
       \<and> pendingOperations (complete j r s) = AList.delete j (pendingOperations s)
       \<and> promises (complete j r s) = (promises s)[p := Fulfilled (completed_result r)]
       \<and> next_timer (complete j r s) = next_timer s \<and> now (complete j r s) = now s
       \<and> registry (complete j r s) = registry s \<and> document (complete j r s) = document s"
proof -
  from c e obtain p d dl where r: "resolve po = Resolver (timeoutId po) j p"
    and t: "map_of (timers s) (timeoutId po) = Some \<lparr> deadline = dl, callback = TimeoutCallback j p d \<rparr>"
    unfolding consistent_def by blast
  from c t have "p < length (promises s) \<and> promises s ! p = Pending"
    unfolding consistent_def by fastforce
  then show ?thesis using e r t
    by (simp add: complete_def resolve_promise_def clearTimeout_def completed_result_def)
qed

lemma consistent_complete:
  assumes c: "consistent s"
  shows "consistent (complete j r s)"
proof (cases "map_of (pendingOperations s) j")
  case None
  then show ?thesis using c by (simp add: complete_idle)
next
  case (Some po)
  from complete_fields [OF c Some, of r] obtain p d dl where
    t: "map_of (timers s) (timeoutId po) = Some \<lparr> deadline = dl, callback = TimeoutCallback j p d \<rparr>"
    and f: "timers (complete j r s) = AList.delete (timeoutId po) (timers s)"
      "pendingOperations (complete j r s) = AList.delete j (pendingOperations s)"
      "promises (complete j r s) = (promises s)[p := Fulfilled (completed_result r)]"
      "next_timer (complete j r s) = next_timer s"
    by blast
  show ?thesis by (rule consistent_settle [OF c t f])
qed

lemma consistent_elapse: "consistent s \<Longrightarrow> consistent (elapse dt s)"
  unfolding elapse_def
  by (rule fold_preserves [where Q = consistent], rule consistent_fire_timer, assumption)
     (simp add: consistent_def)

lemma consistent_step: "consistent s \<Longrightarrow> consistent (step P ev s)"
proof (cases ev)
  case (Interact ident action opts)
  assume "consistent s"
  then show ?thesis
    using Interact consistent_execute [of s P ident action opts]
    by (cases "execute P ident action opts s") simp
next
  case (Signal j r)
  assume "consistent s"
  then show ?thesis using Signal by (simp add: consistent_complete)
next
  case (Elapse dt)
  assume "consistent s"
  then show ?thesis using Elapse by (simp add: consistent_elapse)
next
  case (PageChange r doc)
  assume "consistent s"
  then show ?thesis using PageChange by (simp add: consistent_def)
qed

lemma consistent_run: "consistent s \<Longrightarrow> consistent (run P evs s)"
  unfolding run_def
  by (rule fold_preserves [where Q = consistent], rule consistent_step, assumption+)

lemma consistent_new: "consistent (runtime_new r doc)"
  by (simp add: consistent_def runtime_new_def)

lemma resolve_promise_fields:
  "timers (resolve_promise q x s) = timers s
   \<and> pendingOperations (resolve_promise q x s) = pendingOperations s
   \<and> next_timer (resolve_promise q x s) = next_timer s \<and> now (resolve_promise q x s) = now s
   \<and> length (promises (resolve_promise q x s)) = length (promises s)"
  by (simp add: resolve_promise_def)

lemma resolve_promise_settled:
  "p < length (promises s) \<Longrightarrow> promises s ! p \<noteq> Pending \<Longrightarrow>
   promises (resolve_promise q x s) ! p = promises s ! p"
  by (auto simp: resolve_promise_def nth_list_update)

lemma complete_settled:
  assumes "p < length (promises s)" and "promises s ! p \<noteq> Pending"
  shows "p < length (promises (complete j r s)) \<and> promises (complete j r s) ! p = promises s ! p"
proof (cases "map_of (pendingOperations s) j")
  case None
  then show ?thesis using assms by (simp add: complete_def)
next
  case (Some po)
  obtain tid i q where "resolve po = Resolver tid i q" by (cases "resolve po")
  with Some assms show ?thesis
    by (simp add: complete_def clearTimeout_def resolve_promise_fields resolve_promise_settled)
qed

lemma fire_timer_settled:
  assumes "p < length (promises s)" and "promises s ! p \<noteq> Pending"
  shows "p < length (promises (fire_timer x s)) \<and> promises (fire_timer x s) ! p = promises s ! p"
proof (cases "map_of (timers s) x")
  case None
  then show ?thesis using assms by (simp add: fire_timer_def)
next
  case (Some tm)
  obtain i q d where "callback tm = TimeoutCallback i q d" by (cases "callback tm")
  with Some assms show ?thesis
    by (simp add: fire_timer_def resolve_promise_fields resolve_promise_settled)
qed

lemma fold_fire_timer_settled:
  "p < length (promises s) \<Longrightarrow> promises s ! p \<noteq> Pending \<Longrightarrow>
   p < length (promises (fold fire_timer L s)) \<and> promises (fold fire_timer L s) ! p = promises s ! p"
proof (induction L arbitrary: s)
  case Nil
  then show ?case by simp
next
  case (Cons x L)
  from fire_timer_settled [OF Cons.prems, of x]
  have a: "p < length (promises (fire_timer x s))" and b: "promises (fire_timer x s) ! p = promises s ! p"
    by simp_all
  from Cons.IH [OF a] b Cons.prems(2) show ?case by simp
qed

lemma elapse_settled:
  "p < length (promises s) \<Longrightarrow> promises s ! p \<noteq> Pending \<Longrightarrow>
   p < length (promises (elapse dt s)) \<and> promises (elapse dt s) ! p = promises s ! p"
  unfolding elapse_def
  using fold_fire_timer_settled [of p "s\<lparr> now := now s + dt \<rparr>"] by simp

lemma execute_settled:
  assumes "p < length (promises s)"
  shows "p < length (promises (snd (execute P ident action opts s)))
       \<and> promises (snd (execute P ident action opts s)) ! p = promises s ! p"
proof -
  obtain q s' where e: "execute P ident action opts s = (q, s')"
    by (cases "execute P ident action opts s")
  from execute_fields [OF e] obtain x where "promises s' = promises s @ [x]" by auto
  with assms e show ?thesis by (simp add: nth_append)
qed

lemma settled_step:
  assumes "p < length (promises s)" and "promises s ! p \<noteq> Pending"
  shows "p < length (promises (step P ev s)) \<and> promises (step P ev s) ! p = promises s ! p"
proof (cases ev)
  case (Interact ident action opts)
  then show ?thesis using execute_settled [OF assms(1)] by simp
next
  case (Signal j r)
  then show ?thesis using complete_settled [OF assms] by simp
next
  case (Elapse dt)
  then show ?thesis using elapse_settled [OF assms] by simp
next
  case (PageChange r doc)
  then show ?thesis using assms by simp
qed

lemma settled_run:
  "p < length (promises s) \<Longrightarrow> promises s ! p \<noteq> Pending \<Longrightarrow>
   p < length (promises (run P evs s)) \<and> promises (run P evs s) ! p = promises s ! p"
proof (induction evs arbitrary: s)
  case Nil
  then show ?case by (simp add: run_def)
next
  case (Cons ev evs)
  from settled_step [OF Cons.prems, of P ev]
  have a: "p < length (promises (step P ev s))" and b: "promises (step P ev s) ! p = promises s ! p"
    by simp_all
  from Cons.IH [OF a] b Cons.prems(2) show ?case by (simp add: run_def)
qed

lemma waiting_pending:
  assumes "consistent s" and "waiting s tid dl ident p tmo"
  shows "tid < next_timer s \<and> p < length (promises s) \<and> promises s ! p = Pending"
  using assms unfolding consistent_def waiting_def by fastforce

lemma timed_out_settled:
  "timed_out s p tmo \<Longrightarrow> p < length (promises s) \<and> promises s ! p \<noteq> Pending"
  by (simp add: timed_out_def)

lemma waiting_execute:
  assumes c: "consistent s" and w: "waiting s tid dl ident p tmo"
  shows "waiting (snd (execute P j action opts s)) tid dl ident p tmo"
proof -
  obtain q s' where e: "execute P j action opts s = (q, s')"
    by (cases "execute P j action opts s")
  from waiting_pending [OF c w] have lt: "tid < next_timer s" by simp
  from consistent_fresh [OF c] have fresh: "map_of (timers s) (next_timer s) = None" .
  from execute_fields [OF e]
  have "map_of (timers s') tid = map_of (timers s) tid"
    using lt fresh
    by (auto simp: new_timer_def map_of_snoc delete_conv' simp del: map_of_append split: option.splits)
  with w e show ?thesis by (simp add: waiting_def)
qed

lemma waiting_fire_timer:
  assumes c: "consistent s" and w: "waiting s tid dl ident p tmo"
  shows "if x = tid then timed_out (fire_timer x s) p tmo
         else waiting (fire_timer x s) tid dl ident p tmo"
proof (cases "x = tid")
  case True
  from w have t: "map_of (timers s) tid = Some \<lparr> deadline = dl, callback = TimeoutCallback ident p tmo \<rparr>"
    by (simp add: waiting_def)
  from fire_timer_fields [OF c t] waiting_pending [OF c w] True
  show ?thesis by (simp add: timed_out_def)
next
  case False
  show ?thesis
  proof (cases "map_of (timers s) x")
    case None
    then show ?thesis using False w by (simp add: fire_timer_idle)
  next
    case (Some tm)
    from timer_shape [of tm] obtain dl' i q d
      where "tm = \<lparr> deadline = dl', callback = TimeoutCallback i q d \<rparr>" by blast
    with Some have t: "map_of (timers s) x = Some \<lparr> deadline = dl', callback = TimeoutCallback i q d \<rparr>"
      by simp
    from fire_timer_fields [OF c t] False w show ?thesis
      by (simp add: waiting_def delete_conv')
  qed
qed

lemma timed_out_fire_timer: "timed_out s p tmo \<Longrightarrow> timed_out (fire_timer x s) p tmo"
  using fire_timer_settled [of p s x] by (simp add: timed_out_def)

text \<open>Firing a list of timers: the call keeps waiting until its own timer comes up.\<close>

lemma fold_fire_timer_call:
  assumes "consistent s" and "waiting s tid dl ident p tmo \<or> timed_out s p tmo"
  shows "consistent (fold fire_timer L s)
       \<and> (if tid \<in> set L \<or> timed_out s p tmo then timed_out (fold fire_timer L s) p tmo
          else waiting (fold fire_timer L s) tid dl ident p tmo)"
  using assms
proof (induction L arbitrary: s)
  case Nil
  then show ?case by auto
next
  case (Cons x L)
  let ?s = "fire_timer x s"
  have c: "consistent ?s" by (rule consistent_fire_timer [OF Cons.prems(1)])
  show ?case
  proof (cases "timed_out s p tmo")
    case True
    then have t: "timed_out ?s p tmo" by (rule timed_out_fire_timer)
    from Cons.IH [OF c] t True show ?thesis by simp
  next
    case False
    with Cons.prems have w: "waiting s tid dl ident p tmo" by simp
    show ?thesis
    proof (cases "x = tid")
      case True
      with waiting_fire_timer [OF Cons.prems(1) w, of x] have t: "timed_out ?s p tmo" by simp
      from Cons.IH [OF c] t True show ?thesis by simp
    next
      case ne: False
      with waiting_fire_timer [OF Cons.prems(1) w, of x]
      have w': "waiting ?s tid dl ident p tmo" by simp
      from waiting_pending [OF c w'] have "\<not> timed_out ?s p tmo" by (simp add: timed_out_def)
      with Cons.IH [OF c] w' ne False show ?thesis by simp
    qed
  qed
qed

lemma due_timers_member:
  assumes "map_of ts tid = Some tm" and "deadline tm \<le> t"
  shows "tid \<in> set (due_timers t ts)"
proof -
  from assms(1) have "(tid, tm) \<in> set ts" by (rule map_of_SomeD)
  with assms(2) have "(tid, tm) \<in> set (filter (\<lambda>(tid, tm). deadline tm \<le> t) ts)" by simp
  then show ?thesis unfolding due_timers_def by (force simp del: set_filter)
qed

lemma due_timers_only:
  assumes "tid \<in> set (due_timers t ts)"
  shows "\<exists>tm. (tid, tm) \<in> set ts \<and> deadline tm \<le> t"
  using assms unfolding due_timers_def by auto

lemma elapse_call:
  assumes c: "consistent s" and k: "waiting s tid dl ident p tmo \<or> timed_out s p tmo"
  shows "consistent (elapse dt s)
       \<and> (waiting (elapse dt s) tid dl ident p tmo \<or> timed_out (elapse dt s) p tmo)
       \<and> (dl \<le> now s + dt \<longrightarrow> timed_out (elapse dt s) p tmo)"
proof -
  let ?s = "s\<lparr> now := now s + dt \<rparr>"
  let ?L = "due_timers (now s + dt) (timers s)"
  have c': "consistent ?s" using c by (simp add: consistent_def)
  have k': "waiting ?s tid dl ident p tmo \<or> timed_out ?s p tmo"
    using k by (simp add: waiting_def timed_out_def)
  have due: "dl \<le> now s + dt \<Longrightarrow> tid \<in> set ?L \<or> timed_out ?s p tmo"
  proof -
    assume d: "dl \<le> now s + dt"
    from k show ?thesis
    proof
      assume "waiting s tid dl ident p tmo"
      then have "map_of (timers s) tid = Some \<lparr> deadline = dl, callback = TimeoutCallback ident p tmo \<rparr>"
        by (simp add: waiting_def)
      from due_timers_member [OF this] d show ?thesis by simp
    next
      assume "timed_out s p tmo"
      then show ?thesis by (simp add: timed_out_def)
    qed
  qed
  from fold_fire_timer_call [OF c' k', of ?L] due show ?thesis
    unfolding elapse_def by (auto split: if_splits)
qed

lemma waiting_complete:
  assumes c: "consistent s" and w: "waiting s tid dl ident p tmo"
  shows "waiting (complete j r s) tid dl ident p tmo
       \<or> (j = ident \<and> resolves s ident p
           \<and> map_of (pendingOperations s) ident
               = Some \<lparr> resolve = Resolver tid ident p, timeoutId = tid \<rparr>)"
proof (cases "map_of (pendingOperations s) j")
  case None
  then show ?thesis using w by (simp add: complete_idle)
next
  case (Some po)
  from complete_fields [OF c Some, of r] obtain q d dl' where
    r: "resolve po = Resolver (timeoutId po) j q"
    and t: "map_of (timers s) (timeoutId po) = Some \<lparr> deadline = dl', callback = TimeoutCallback j q d \<rparr>"
    and tm: "timers (complete j r s) = AList.delete (timeoutId po) (timers s)"
    by blast
  show ?thesis
  proof (cases "timeoutId po = tid")
    case True
    with t w have "j = ident" and "q = p" by (simp_all add: waiting_def)
    with r True Some have "po = \<lparr> resolve = Resolver tid ident p, timeoutId = tid \<rparr>"
      by (cases po) simp
    with Some \<open>j = ident\<close> show ?thesis by (auto simp: resolves_def)
  next
    case False
    with tm w show ?thesis by (simp add: waiting_def delete_conv')
  qed
qed

lemma not_resolves_elsewhere:
  assumes c: "consistent s" and k: "waiting s tid dl ident p tmo \<or> timed_out s p tmo"
    and ne: "j \<noteq> ident"
  shows "\<not> resolves s j p"
proof
  assume "resolves s j p"
  then obtain po tid' i where e: "map_of (pendingOperations s) j = Some po"
    and r: "resolve po = Resolver tid' i p" unfolding resolves_def by blast
  from c e obtain q d dl' where r': "resolve po = Resolver (timeoutId po) j q"
    and t: "map_of (timers s) (timeoutId po) = Some \<lparr> deadline = dl', callback = TimeoutCallback j q d \<rparr>"
    unfolding consistent_def by blast
  from r r' have qp: "q = p" by simp
  from c t qp have pend: "promises s ! p = Pending" unfolding consistent_def by fastforce
  from k show False
  proof
    assume w: "waiting s tid dl ident p tmo"
    then have t2: "map_of (timers s) tid = Some \<lparr> deadline = dl, callback = TimeoutCallback ident p tmo \<rparr>"
      by (simp add: waiting_def)
    from c t t2 qp have "timeoutId po = tid" unfolding consistent_def by fastforce
    with t t2 ne show False by simp
  next
    assume "timed_out s p tmo"
    with pend show False by (simp add: timed_out_def)
  qed
qed

text \<open>One step of a trace, seen from one tracked call.\<close>

lemma call_step:
  assumes c: "consistent s" and k: "waiting s tid dl ident p tmo \<or> timed_out s p tmo"
    and q: "\<And>r. ev = Signal ident r \<Longrightarrow> \<not> resolves s ident p"
  shows "waiting (step P ev s) tid dl ident p tmo \<or> timed_out (step P ev s) p tmo"
proof (cases "timed_out s p tmo")
  case True
  from settled_step [of p s P ev] True show ?thesis by (simp add: timed_out_def)
next
  case False
  with k have w: "waiting s tid dl ident p tmo" by simp
  show ?thesis
  proof (cases ev)
    case (Interact j action opts)
    then show ?thesis using waiting_execute [OF c w] by simp
  next
    case (Signal j r)
    from waiting_complete [OF c w, of j r] q [of r] Signal show ?thesis by auto
  next
    case (Elapse dt)
    then show ?thesis using elapse_call [OF c k, of dt] by simp
  next
    case (PageChange r doc)
    then show ?thesis using w by (simp add: waiting_def)
  qed
qed

lemma call_run_quiet:
  assumes "consistent s" and "waiting s tid dl ident p tmo \<or> timed_out s p tmo"
    and "\<forall>r. Signal ident r \<notin> set evs"
  shows "waiting (run P evs s) tid dl ident p tmo \<or> timed_out (run P evs s) p tmo"
  using assms
proof (induction evs arbitrary: s)
  case Nil
  then show ?case by (simp add: run_def)
next
  case (Cons ev evs)
  have c: "consistent (step P ev s)" by (rule consistent_step [OF Cons.prems(1)])
  have k: "waiting (step P ev s) tid dl ident p tmo \<or> timed_out (step P ev s) p tmo"
    using Cons.prems by (intro call_step) auto
  from Cons.IH [OF c k] Cons.prems(3) show ?case by (simp add: run_def)
qed

lemma execute_async:
  assumes reg: "registry_get (registry s) ident = Some sidElement"
    and en: "\<not> sid_disabled sidElement"
    and dom: "querySelector (document s) (sid_selector sidElement) = Some (el, domElement)"
    and tr: "tracking_of P domElement = ''async''"
    and disp: "triggerAction (document s) el domElement action = Inr doc'"
    and ex: "execute P ident action opts s = (p, s1)"
  shows "p = length (promises s) \<and> promises s1 = promises s @ [Pending]
       \<and> timers s1 = timers s @ [new_timer s ident opts]
       \<and> next_timer s1 = Suc (next_timer s)
       \<and> pendingOperations s1 = AList.update ident (new_pending s ident) (pendingOperations s)
       \<and> document s1 = doc' \<and> now s1 = now s \<and> registry s1 = registry s"
  using assms
  by (auto simp: execute_def Let_def new_promise_def setTimeout_def new_timer_def new_pending_def)

lemma execute_async_waiting:
  assumes c: "consistent s"
    and reg: "registry_get (registry s) ident = Some sidElement"
    and en: "\<not> sid_disabled sidElement"
    and dom: "querySelector (document s) (sid_selector sidElement) = Some (el, domElement)"
    and tr: "tracking_of P domElement = ''async''"
    and disp: "triggerAction (document s) el domElement action = Inr doc'"
    and ex: "execute P ident action opts s = (p, s1)"
  shows "consistent s1
       \<and> waiting s1 (next_timer s) (now s + effective_timeout opts) ident p (effective_timeout opts)
       \<and> map_of (pendingOperations s1) ident
           = Some \<lparr> resolve = Resolver (next_timer s) ident p, timeoutId = next_timer s \<rparr>
       \<and> p = length (promises s) \<and> promises s1 ! p = Pending \<and> p < length (promises s1)"
proof -
  note f = execute_async [OF reg en dom tr disp ex]
  from consistent_fresh [OF c] have fresh: "map_of (timers s) (next_timer s) = None" .
  have c1: "consistent s1" by (rule consistent_execute [OF c ex])
  have w: "waiting s1 (next_timer s) (now s + effective_timeout opts) ident p (effective_timeout opts)"
    using f fresh
    by (simp add: waiting_def new_timer_def map_of_snoc del: map_of_append)
  have e: "map_of (pendingOperations s1) ident
           = Some \<lparr> resolve = Resolver (next_timer s) ident p, timeoutId = next_timer s \<rparr>"
    using f by (simp add: update_conv' new_pending_def)
  from c1 w e f show ?thesis by (simp add: nth_append)
qed

lemma delete_fresh_snoc:
  "map_of xs k = None \<Longrightarrow> AList.delete k (xs @ [(k, v)]) = xs"
  by (induction xs) (auto simp: AList.delete_eq split: if_splits)

lemma execute_async_caught:
  assumes reg: "registry_get (registry s) ident = Some sidElement"
    and en: "\<not> sid_disabled sidElement"
    and dom: "querySelector (document s) (sid_selector sidElement) = Some (el, domElement)"
    and tr: "tracking_of P domElement = ''async''"
    and disp: "triggerAction (document s) el domElement action = Inl e"
    and ex: "execute P ident action opts s = (p, s1)"
  shows "p = length (promises s) \<and> promises s1 = promises s @ [Fulfilled (failed_result e)]
       \<and> timers s1 = AList.delete (next_timer s) (timers s @ [new_timer s ident opts])
       \<and> next_timer s1 = Suc (next_timer s)
       \<and> pendingOperations s1
           = AList.delete ident (AList.update ident (new_pending s ident) (pendingOperations s))
       \<and> document s1 = document s \<and> now s1 = now s \<and> registry s1 = registry s"
  using assms
  by (auto simp: execute_def Let_def new_promise_def setTimeout_def new_timer_def new_pending_def
      resolve_promise_def clearTimeout_def)

text \<open>Past the three precondition checks, the native action runs on the first match.\<close>

lemma trigger_and_return_first:
  assumes "trigger_and_return el domElement action st msg s = (p, s')"
  shows "(triggerAction (document s) el domElement action = Inr doc' \<longrightarrow>
            document s' = doc' \<and> (\<exists>x. promises s' ! p = Fulfilled x \<and> success x))
       \<and> (triggerAction (document s) el domElement action = Inl e \<longrightarrow>
            document s' = document s \<and> promises s' ! p = Fulfilled (failed_result e))"
  using assms
  by (auto simp: trigger_and_return_def return_result_def nth_append)

lemma execute_first_match:
  assumes reg: "registry_get (registry s) ident = Some sidElement"
    and en: "\<not> sid_disabled sidElement"
    and all: "querySelectorAll (document s) (sid_selector sidElement) = (el, domElement) # rest"
    and ex: "execute P ident action opts s = (p, s')"
  shows "(triggerAction (document s) el domElement action = Inr doc' \<longrightarrow>
            document s' = doc'
            \<and> (promises s' ! p = Pending \<or> (\<exists>x. promises s' ! p = Fulfilled x \<and> success x)))
       \<and> (triggerAction (document s) el domElement action = Inl e \<longrightarrow>
            document s' = document s \<and> promises s' ! p = Fulfilled (failed_result e))"
proof -
  from all have dom: "querySelector (document s) (sid_selector sidElement) = Some (el, domElement)"
    by (simp add: querySelector_def)
  consider (none) "tracking_of P domElement = ''none''"
    | (nav) "tracking_of P domElement \<noteq> ''none''" "tracking_of P domElement = ''navigation''"
    | (ext) "tracking_of P domElement \<noteq> ''none''" "tracking_of P domElement \<noteq> ''navigation''"
        "tracking_of P domElement = ''external''"
    | (async) "tracking_of P domElement \<noteq> ''none''" "tracking_of P domElement \<noteq> ''navigation''"
        "tracking_of P domElement \<noteq> ''external''"
    by blast
  then show ?thesis
  proof cases
    case none
    with reg en dom ex
    have "trigger_and_return el domElement action ''completed''
            (act_type action @ '' executed on '' @ ident) s = (p, s')"
      by (simp add: execute_def)
    from trigger_and_return_first [OF this] show ?thesis by blast
  next
    case nav
    with reg en dom ex
    have "trigger_and_return el domElement action ''navigation'' (destination_of P domElement) s
            = (p, s')"
      by (simp add: execute_def)
    from trigger_and_return_first [OF this] show ?thesis by blast
  next
    case ext
    with reg en dom ex
    have "trigger_and_return el domElement action ''external''
            (if sid_description sidElement = [] then ''External operation triggered''
             else sid_description sidElement) s = (p, s')"
      by (simp add: execute_def)
    from trigger_and_return_first [OF this] show ?thesis by blast
  next
    case async
    show ?thesis
    proof (cases "triggerAction (document s) el domElement action")
      case (Inl x)
      with async reg en dom ex show ?thesis
        by (auto simp: execute_def Let_def new_promise_def setTimeout_def
            resolve_promise_def clearTimeout_def nth_append)
    next
      case (Inr d)
      with async reg en dom ex show ?thesis
        by (auto simp: execute_def Let_def new_promise_def setTimeout_def nth_append)
    qed
  qed
qed

lemma now_fire_timer: "now (fire_timer x s) = now s"
proof (cases "map_of (timers s) x")
  case None
  then show ?thesis by (simp add: fire_timer_def)
next
  case (Some tm)
  obtain i q d where "callback tm = TimeoutCallback i q d" by (cases "callback tm")
  with Some show ?thesis by (simp add: fire_timer_def resolve_promise_fields)
qed

lemma now_elapse: "now (elapse dt s) = now s + dt"
proof -
  have "\<And>L s. now (fold fire_timer L s) = now s"
  proof -
    fix L s show "now (fold fire_timer L s) = now s"
      by (induction L arbitrary: s) (simp_all add: now_fire_timer)
  qed
  then show ?thesis by (simp add: elapse_def)
qed

lemma pending_fire_timer_None:
  assumes "map_of (pendingOperations s) j = None"
  shows "map_of (pendingOperations (fire_timer x s)) j = None"
proof (cases "map_of (timers s) x")
  case None
  then show ?thesis using assms by (simp add: fire_timer_def)
next
  case (Some tm)
  obtain i q d where "callback tm = TimeoutCallback i q d" by (cases "callback tm")
  with Some assms show ?thesis
    by (simp add: fire_timer_def resolve_promise_fields delete_conv')
qed

lemma fold_fire_timer_removes:
  assumes "consistent s"
    and "(waiting s tid dl ident p tmo \<and> tid \<in> set L) \<or> map_of (pendingOperations s) ident = None"
  shows "map_of (pendingOperations (fold fire_timer L s)) ident = None"
  using assms
proof (induction L arbitrary: s)
  case Nil
  then show ?case by simp
next
  case (Cons x L)
  let ?s = "fire_timer x s"
  have c: "consistent ?s" by (rule consistent_fire_timer [OF Cons.prems(1)])
  from Cons.prems(2)
  have "(waiting ?s tid dl ident p tmo \<and> tid \<in> set L) \<or> map_of (pendingOperations ?s) ident = None"
  proof
    assume a: "waiting s tid dl ident p tmo \<and> tid \<in> set (x # L)"
    show ?thesis
    proof (cases "x = tid")
      case True
      from a have "map_of (timers s) tid = Some \<lparr> deadline = dl, callback = TimeoutCallback ident p tmo \<rparr>"
        by (simp add: waiting_def)
      from fire_timer_fields [OF Cons.prems(1) this] True show ?thesis
        by (simp add: delete_conv')
    next
      case False
      with a waiting_fire_timer [OF Cons.prems(1), of tid dl ident p tmo x] show ?thesis by simp
    qed
  next
    assume "map_of (pendingOperations s) ident = None"
    then show ?thesis by (simp add: pending_fire_timer_None)
  qed
  from Cons.IH [OF c this] show ?case by simp
qed

lemma elapse_removes:
  assumes c: "consistent s" and w: "waiting s tid dl ident p tmo" and d: "dl \<le> now s + dt"
  shows "map_of (pendingOperations (elapse dt s)) ident = None"
proof -
  let ?s = "s\<lparr> now := now s + dt \<rparr>"
  have c': "consistent ?s" using c by (simp add: consistent_def)
  have w': "waiting ?s tid dl ident p tmo" using w by (simp add: waiting_def)
  from w have "map_of (timers s) tid = Some \<lparr> deadline = dl, callback = TimeoutCallback ident p tmo \<rparr>"
    by (simp add: waiting_def)
  from due_timers_member [OF this] d have "tid \<in> set (due_timers (now s + dt) (timers s))" by simp
  with w' fold_fire_timer_removes [OF c', of tid dl ident p tmo] show ?thesis
    by (simp add: elapse_def)
qed

lemma call_step_any:
  assumes c: "consistent s"
    and k: "waiting s tid dl ident p tmo \<or> (p < length (promises s) \<and> promises s ! p \<noteq> Pending)"
  shows "waiting (step P ev s) tid dl ident p tmo
       \<or> (p < length (promises (step P ev s)) \<and> promises (step P ev s) ! p \<noteq> Pending)"
proof (cases "p < length (promises s) \<and> promises s ! p \<noteq> Pending")
  case True
  with settled_step [of p s P ev] show ?thesis by simp
next
  case False
  with k have w: "waiting s tid dl ident p tmo" by blast
  show ?thesis
  proof (cases ev)
    case (Interact j action opts)
    then show ?thesis using waiting_execute [OF c w] by simp
  next
    case (Signal j r)
    from waiting_complete [OF c w, of j r]
    show ?thesis
    proof
      assume "waiting (complete j r s) tid dl ident p tmo"
      then show ?thesis using Signal by simp
    next
      assume a: "j = ident \<and> resolves s ident p
           \<and> map_of (pendingOperations s) ident
               = Some \<lparr> resolve = Resolver tid ident p, timeoutId = tid \<rparr>"
      then have e: "map_of (pendingOperations s) ident
          = Some \<lparr> resolve = Resolver tid ident p, timeoutId = tid \<rparr>" by simp
      from complete_fields [OF c e, of r] waiting_pending [OF c w]
      have "p < length (promises (complete ident r s))
          \<and> promises (complete ident r s) ! p = Fulfilled (completed_result r)"
        by auto
      with a Signal show ?thesis by simp
    qed
  next
    case (Elapse dt)
    from elapse_call [OF c, of tid dl ident p tmo dt] w
    have "waiting (elapse dt s) tid dl ident p tmo \<or> timed_out (elapse dt s) p tmo" by simp
    then show ?thesis using Elapse by (auto simp: timed_out_def)
  next
    case (PageChange r doc)
    then show ?thesis using w by (simp add: waiting_def)
  qed
qed

lemma call_run_any:
  assumes "consistent s"
    and "waiting s tid dl ident p tmo \<or> (p < length (promises s) \<and> promises s ! p \<noteq> Pending)"
  shows "waiting (run P evs s) tid dl ident p tmo
       \<or> (p < length (promises (run P evs s)) \<and> promises (run P evs s) ! p \<noteq> Pending)"
  using assms
proof (induction evs arbitrary: s)
  case Nil
  then show ?case by (simp add: run_def)
next
  case (Cons ev evs)
  have c: "consistent (step P ev s)" by (rule consistent_step [OF Cons.prems(1)])
  from Cons.IH [OF c call_step_any [OF Cons.prems]] show ?case by (simp add: run_def)
qed

lemma pending_fire_timer_sub:
  assumes "map_of (pendingOperations (fire_timer x s)) j = Some po"
  shows "map_of (pendingOperations s) j = Some po"
proof (cases "map_of (timers s) x")
  case None
  then show ?thesis using assms by (simp add: fire_timer_def)
next
  case (Some tm)
  obtain i q d where "callback tm = TimeoutCallback i q d" by (cases "callback tm")
  with Some assms show ?thesis
    by (simp add: fire_timer_def resolve_promise_fields delete_conv' split: if_splits)
qed

lemma pending_fold_fire_timer_sub:
  "map_of (pendingOperations (fold fire_timer L s)) j = Some po \<Longrightarrow>
   map_of (pendingOperations s) j = Some po"
proof (induction L arbitrary: s)
  case Nil
  then show ?case by simp
next
  case (Cons x L)
  from Cons.IH [of "fire_timer x s"] Cons.prems
  have "map_of (pendingOperations (fire_timer x s)) j = Some po" by simp
  then show ?case by (rule pending_fire_timer_sub)
qed

lemma pending_complete_sub:
  assumes "map_of (pendingOperations (complete i r s)) j = Some po"
  shows "map_of (pendingOperations s) j = Some po"
proof (cases "map_of (pendingOperations s) i")
  case None
  then show ?thesis using assms by (simp add: complete_def)
next
  case (Some po')
  obtain tid i' q where "resolve po' = Resolver tid i' q" by (cases "resolve po'")
  with Some assms show ?thesis
    by (simp add: complete_def clearTimeout_def resolve_promise_fields delete_conv' split: if_splits)
qed

lemma pending_step:
  assumes "map_of (pendingOperations (step P ev s)) j = Some po"
  shows "map_of (pendingOperations s) j = Some po
       \<or> (\<exists>n i. resolve po = Resolver n i (length (promises s)))"
proof (cases ev)
  case (Interact ident action opts)
  obtain q s' where e: "execute P ident action opts s = (q, s')"
    by (cases "execute P ident action opts s")
  from execute_fields [OF e] assms Interact e show ?thesis
    by (auto simp: update_conv' delete_conv' new_pending_def split: if_splits)
next
  case (Signal i r)
  then show ?thesis using assms pending_complete_sub [of i r s j po] by simp
next
  case (Elapse dt)
  then show ?thesis
    using assms pending_fold_fire_timer_sub [of _ "s\<lparr> now := now s + dt \<rparr>" j po]
    by (simp add: elapse_def)
next
  case (PageChange r doc)
  then show ?thesis using assms by simp
qed

lemma unresolved_step:
  assumes lt: "p < length (promises s)" and n: "\<forall>j. \<not> resolves s j p"
  shows "\<forall>j. \<not> resolves (step P ev s) j p"
proof (intro allI notI)
  fix j assume "resolves (step P ev s) j p"
  then obtain po tid i where e: "map_of (pendingOperations (step P ev s)) j = Some po"
    and r: "resolve po = Resolver tid i p" unfolding resolves_def by blast
  from pending_step [OF e] show False
  proof
    assume "map_of (pendingOperations s) j = Some po"
    with r n show False unfolding resolves_def by blast
  next
    assume "\<exists>n i. resolve po = Resolver n i (length (promises s))"
    with r lt show False by auto
  qed
qed

text \<open>A call whose resolver is in no pending operation can only time out.\<close>

lemma orphan_run:
  assumes "consistent s" and "waiting s tid dl ident p tmo \<or> timed_out s p tmo"
    and "\<forall>j. \<not> resolves s j p"
  shows "consistent (run P evs s)
       \<and> (waiting (run P evs s) tid dl ident p tmo \<or> timed_out (run P evs s) p tmo)"
  using assms
proof (induction evs arbitrary: s)
  case Nil
  then show ?case by (simp add: run_def)
next
  case (Cons ev evs)
  have c: "consistent (step P ev s)" by (rule consistent_step [OF Cons.prems(1)])
  have k: "waiting (step P ev s) tid dl ident p tmo \<or> timed_out (step P ev s) p tmo"
    using Cons.prems by (intro call_step) auto
  have lt: "p < length (promises s)"
    using Cons.prems(2) waiting_pending [OF Cons.prems(1)] by (auto simp: timed_out_def)
  have n: "\<forall>j. \<not> resolves (step P ev s) j p"
    by (rule unresolved_step [OF lt Cons.prems(3)])
  from Cons.IH [OF c k n] show ?case by (simp add: run_def)
qed

text \<open>Facts about the sample page that the examples below share.\<close>

lemma shop_reached:
  "shop_runtime
     = run sample_JSON_parse []
         (runtime_new (ElementRegistry_new sample_JSON_parse shop_page True) shop_page)"
  by (simp add: run_def shop_runtime_def)

lemma shop_save_registered: "registry_get (registry shop_runtime) ''save'' = Some save_element"
  by code_simp

lemma shop_save_enabled: "\<not> sid_disabled save_element"
  by (simp add: save_element_def)

lemma shop_save_found:
  "querySelector (document shop_runtime) (sid_selector save_element) = Some ([0, 0], save_node)"
  by code_simp

lemma shop_save_async: "tracking_of sample_JSON_parse save_node = ''async''"
  by code_simp

lemma shop_save_click:
  "triggerAction (document shop_runtime) [0, 0] save_node click_action
     = Inr (executeClick [0, 0] (document shop_runtime))"
  by code_simp

lemma first_save_pair: "execute sample_JSON_parse ''save'' click_action (within 100) shop_runtime
     = (fst first_save, snd first_save)"
  by (simp add: first_save_def)

lemma second_save_pair:
  "execute sample_JSON_parse ''save'' click_action (within 100)
     (run sample_JSON_parse [Elapse 50] (snd first_save)) = (fst second_save, snd second_save)"
  by (simp add: second_save_def)

lemma shop_save_fill:
  "triggerAction (document shop_runtime) [0, 0] save_node fill_action
     = Inl ''Element is not a fillable input element''"
  by code_simp

lemma refused_save_pair:
  "execute sample_JSON_parse ''save'' fill_action (within 100) shop_runtime
     = (fst refused_save, snd refused_save)"
  by (simp add: refused_save_def)

lemma twin_go_registered: "registry_get (registry twin_runtime) ''go'' = Some go_element"
  by code_simp

lemma twin_go_enabled: "\<not> sid_disabled go_element"
  by (simp add: go_element_def)

lemma twin_go_found:
  "querySelectorAll (document twin_runtime) (sid_selector go_element)
     = ([0, 0], go_node) # [([0, 1], go_node)]"
  by code_simp

lemma twin_go_click:
  "triggerAction (document twin_runtime) [0, 0] go_node click_action
     = Inr (executeClick [0, 0] (document twin_runtime))"
  by code_simp

section \<open>The executor: the claims\<close>

text \<open>
  C1 (as amended). In a state \<open>s\<close> that an executor has reached by any history of
  events since its construction, take an \<open>execute\<close> call on a registered, enabled
  element found in the document, whose tracking kind read from the live node is \<open>async\<close> and whose native
  dispatch does not throw; let anything happen afterwards (\<open>evs\<close>), as long as the
  pending operation this call registered is still the one stored under the identifier
  when the completion signal arrives. Then the signal settles the promise of the call
  with the signaled status, message and effects and with success true whatever the
  status says; the call's timer was active and is cancelled; the pending entry is
  removed; and nothing that happens later changes the settled promise.
\<close>

theorem C1_completion_signal:
  assumes reach: "s = run P history (runtime_new registry0 document0)"
    and reg: "registry_get (registry s) ident = Some sidElement"
    and en: "\<not> sid_disabled sidElement"
    and dom: "querySelector (document s) (sid_selector sidElement) = Some (el, domElement)"
    and tr: "tracking_of P domElement = ''async''"
    and disp: "triggerAction (document s) el domElement action = Inr doc'"
    and ex: "execute P ident action opts s = (p, s1)"
    and s2: "s2 = run P evs s1"
    and still: "map_of (pendingOperations s2) ident = map_of (pendingOperations s1) ident"
    and s3: "s3 = complete ident r s2"
  shows "promises s3 ! p
           = Fulfilled \<lparr> success = True, status = cr_status r, error = None,
                         message = cr_message r, effects = cr_effects r \<rparr>
       \<and> map_of (timers s2) (next_timer s) \<noteq> None
       \<and> map_of (timers s3) (next_timer s) = None
       \<and> map_of (pendingOperations s3) ident = None
       \<and> (\<forall>evs'. promises (run P evs' s3) ! p = promises s3 ! p)"
proof -
  have c: "consistent s"
    unfolding reach by (rule consistent_run [OF consistent_new])
  from execute_async_waiting [OF c reg en dom tr disp ex]
  have c1: "consistent s1"
    and e1: "map_of (pendingOperations s1) ident
               = Some \<lparr> resolve = Resolver (next_timer s) ident p, timeoutId = next_timer s \<rparr>"
    by blast+
  have c2: "consistent s2" unfolding s2 by (rule consistent_run [OF c1])
  let ?po = "\<lparr> resolve = Resolver (next_timer s) ident p, timeoutId = next_timer s \<rparr>"
  from still e1 have e2: "map_of (pendingOperations s2) ident = Some ?po" by simp
  from complete_fields [OF c2 e2, of r] obtain q d dl where
    r: "resolve ?po = Resolver (timeoutId ?po) ident q"
    and t: "map_of (timers s2) (timeoutId ?po) = Some \<lparr> deadline = dl, callback = TimeoutCallback ident q d \<rparr>"
    and lt: "q < length (promises s2)"
    and tm: "timers (complete ident r s2) = AList.delete (timeoutId ?po) (timers s2)"
    and pe: "pendingOperations (complete ident r s2) = AList.delete ident (pendingOperations s2)"
    and pr: "promises (complete ident r s2) = (promises s2)[q := Fulfilled (completed_result r)]"
    by blast
  from r have qp: "q = p" by simp
  have a: "promises s3 ! p = Fulfilled (completed_result r)"
    using pr lt qp by (simp add: s3)
  have b: "map_of (timers s2) (next_timer s) \<noteq> None" using t by simp
  have d: "map_of (timers s3) (next_timer s) = None" using tm by (simp add: s3 delete_conv')
  have e: "map_of (pendingOperations s3) ident = None" using pe by (simp add: s3 delete_conv')
  have lt3: "p < length (promises s3)" using pr lt qp by (simp add: s3)
  have f: "\<forall>evs'. promises (run P evs' s3) ! p = promises s3 ! p"
    using settled_run [OF lt3, of P] a by simp
  from a b d e f show ?thesis by (simp add: completed_result_def)
qed

theorem C1_completion_signal_witness:
  "tracking_of sample_JSON_parse save_node = ''async''
   \<and> fst first_save = 0
   \<and> promises (complete ''save'' error_signal
        (run sample_JSON_parse [Elapse 99, Interact ''email'' fill_action (within 200)] (snd first_save)))
       ! 0
     = Fulfilled \<lparr> success = True, status = ''error'', error = None,
                   message = Some ''rejected by the server'', effects = None \<rparr>
   \<and> map_of (pendingOperations (complete ''save'' error_signal
        (run sample_JSON_parse [Elapse 99, Interact ''email'' fill_action (within 200)] (snd first_save))))
       ''save'' = None"
proof -
  let ?s2 = "run sample_JSON_parse [Elapse 99, Interact ''email'' fill_action (within 200)] (snd first_save)"
  have still: "map_of (pendingOperations ?s2) ''save'' = map_of (pendingOperations (snd first_save)) ''save''"
    by code_simp
  have p: "fst first_save = 0" by code_simp
  from C1_completion_signal [OF shop_reached shop_save_registered shop_save_enabled
      shop_save_found shop_save_async shop_save_click first_save_pair refl still refl,
      of error_signal]
  have "promises (complete ''save'' error_signal ?s2) ! fst first_save
           = Fulfilled \<lparr> success = True, status = cr_status error_signal, error = None,
                         message = cr_message error_signal, effects = cr_effects error_signal \<rparr>
       \<and> map_of (pendingOperations (complete ''save'' error_signal ?s2)) ''save'' = None"
    by blast
  then show ?thesis using p shop_save_async by (simp add: error_signal_def)
qed

text \<open>
  The claim as stated, for every \<open>execute\<close> call on an async element, fails in two ways.
  With two overlapping calls on the same identifier, a completion signal that arrives
  before either timer has fired settles the second call only; the first call's result is
  \<open>timeout\<close>. And when the native dispatch throws (a \<open>fill\<close> on a button), the call
  has already settled with success false, and the signal changes nothing.
\<close>

theorem C1_completion_signal_counterexample:
  "fst first_save = 0
   \<and> promises (run sample_JSON_parse
        [Interact ''save'' click_action (within 100), Interact ''save'' click_action (within 100),
         Signal ''save'' ok_signal, Elapse 100] shop_runtime)
     = [Fulfilled \<lparr> success = True, status = ''timeout'', error = None,
                      message = Some ''Operation timed out after 100ms'', effects = None \<rparr>,
        Fulfilled \<lparr> success = True, status = ''completed'', error = None,
                      message = Some ''ok'', effects = None \<rparr>]
   \<and> promises (run sample_JSON_parse
        [Interact ''save'' fill_action (within 100), Signal ''save'' ok_signal, Elapse 100]
        shop_runtime)
     = [Fulfilled \<lparr> success = False, status = ''error'',
                      error = Some ''Action execution failed: Element is not a fillable input element'',
                      message = None, effects = None \<rparr>]"
  by code_simp

text \<open>
  C2 (as amended). In a state reached by any history of events, take an \<open>execute\<close>
  call on a registered, enabled element that its selector finds in the document and whose
  tracking is \<open>async\<close>; the effective timeout is \<open>effective_timeout opts\<close>, which is
  30000 when the options give none. Let any events follow the call, and then a stretch
  of time.

  If the native dispatch does not throw and no completion signal for the identifier is
  among those events, then once the clock has passed the call's start by the timeout, the
  promise is fulfilled with success true, status \<open>timeout\<close> and a message naming the
  duration. If the promise was still pending before the last stretch of time, that
  stretch also leaves no pending entry under the identifier, so a completion signal
  delivered then changes nothing.

  If the native dispatch throws, the promise is fulfilled at once with success false,
  status \<open>error\<close> and the error \<open>Action execution failed\<close> followed by what was thrown.
  The timer of the call is cancelled, so the active timers are those from before the
  call, no pending entry is left under the identifier, and the result stays as it is
  whatever events and time follow.
\<close>

theorem C2_timeout:
  assumes reach: "s = run P history (runtime_new registry0 document0)"
    and reg: "registry_get (registry s) ident = Some sidElement"
    and en: "\<not> sid_disabled sidElement"
    and dom: "querySelector (document s) (sid_selector sidElement) = Some (el, domElement)"
    and tr: "tracking_of P domElement = ''async''"
    and ex: "execute P ident action opts s = (p, s1)"
    and s2: "s2 = run P evs s1"
    and s3: "s3 = elapse dt s2"
  shows "(triggerAction (document s) el domElement action = Inr doc'
            \<and> (\<forall>r. Signal ident r \<notin> set evs)
            \<and> now s + effective_timeout opts \<le> now s3 \<longrightarrow>
          promises s3 ! p
            = Fulfilled \<lparr> success = True, status = ''timeout'', error = None,
                          message = Some (''Operation timed out after ''
                                      @ decimal (effective_timeout opts) @ ''ms''),
                          effects = None \<rparr>
          \<and> (promises s2 ! p = Pending \<longrightarrow>
                map_of (pendingOperations s3) ident = None \<and> complete ident r s3 = s3))
       \<and> (triggerAction (document s) el domElement action = Inl e \<longrightarrow>
          promises s1 ! p
            = Fulfilled \<lparr> success = False, status = ''error'',
                          error = Some (''Action execution failed: '' @ e),
                          message = None, effects = None \<rparr>
          \<and> timers s1 = timers s
          \<and> map_of (pendingOperations s1) ident = None
          \<and> promises s3 ! p = promises s1 ! p)"
proof -
  have c: "consistent s"
    unfolding reach by (rule consistent_run [OF consistent_new])
  let ?tid = "next_timer s" and ?dl = "now s + effective_timeout opts"
  let ?tmo = "effective_timeout opts"
  have A: "promises s3 ! p = Fulfilled (timeout_result ?tmo)
           \<and> (promises s2 ! p = Pending \<longrightarrow>
                map_of (pendingOperations s3) ident = None \<and> complete ident r s3 = s3)"
    if disp: "triggerAction (document s) el domElement action = Inr doc'"
      and quiet: "\<forall>r. Signal ident r \<notin> set evs"
      and late: "now s + effective_timeout opts \<le> now s3"
  proof -
    from execute_async_waiting [OF c reg en dom tr disp ex]
    have c1: "consistent s1" and w1: "waiting s1 ?tid ?dl ident p ?tmo" by blast+
    have c2: "consistent s2" unfolding s2 by (rule consistent_run [OF c1])
    have k2: "waiting s2 ?tid ?dl ident p ?tmo \<or> timed_out s2 p ?tmo"
      unfolding s2 using c1 w1 quiet by (intro call_run_quiet) simp_all
    from late have d: "?dl \<le> now s2 + dt" by (simp add: s3 now_elapse)
    from elapse_call [OF c2 k2, of dt] d have "timed_out s3 p ?tmo" by (simp add: s3)
    then have a: "promises s3 ! p = Fulfilled (timeout_result ?tmo)"
      by (simp add: timed_out_def)
    have b: "promises s2 ! p = Pending \<longrightarrow>
               map_of (pendingOperations s3) ident = None \<and> complete ident r s3 = s3"
    proof
      assume "promises s2 ! p = Pending"
      with k2 have w2: "waiting s2 ?tid ?dl ident p ?tmo" by (auto simp: timed_out_def)
      from elapse_removes [OF c2 w2 d] have "map_of (pendingOperations s3) ident = None"
        by (simp add: s3)
      then show "map_of (pendingOperations s3) ident = None \<and> complete ident r s3 = s3"
        by (simp add: complete_idle)
    qed
    from a b show ?thesis by (rule conjI)
  qed
  have B: "promises s1 ! p = Fulfilled (failed_result e)
           \<and> timers s1 = timers s
           \<and> map_of (pendingOperations s1) ident = None
           \<and> promises s3 ! p = promises s1 ! p"
    if disp: "triggerAction (document s) el domElement action = Inl e"
  proof -
    note f = execute_async_caught [OF reg en dom tr disp ex]
    from f have p1: "promises s1 ! p = Fulfilled (failed_result e)" and lt: "p < length (promises s1)"
      by (simp_all add: nth_append)
    from consistent_fresh [OF c] have fresh: "map_of (timers s) (next_timer s) = None" .
    from f have "timers s1 = AList.delete (next_timer s) (timers s @ [new_timer s ident opts])"
      by simp
    with fresh have t1: "timers s1 = timers s"
      by (simp add: new_timer_def delete_fresh_snoc)
    from f have pe: "map_of (pendingOperations s1) ident = None"
      by (simp add: delete_conv')
    from p1 have np: "promises s1 ! p \<noteq> Pending" by simp
    from settled_run [OF lt np, of P evs]
    have lt2: "p < length (promises s2)" and p2: "promises s2 ! p = promises s1 ! p"
      by (simp_all add: s2)
    from p2 np have np2: "promises s2 ! p \<noteq> Pending" by simp
    from elapse_settled [OF lt2 np2, of dt] p2 have p3: "promises s3 ! p = promises s1 ! p"
      by (simp add: s3)
    from p1 t1 pe p3 show ?thesis by (intro conjI)
  qed
  from A B show ?thesis
    by (simp add: timeout_result_def failed_result_def error_result_def)
qed

theorem C2_timeout_witness:
  "tracking_of sample_JSON_parse save_node = ''async''
   \<and> fst first_save = 0
   \<and> promises (elapse 1 (run sample_JSON_parse [Elapse 99, Signal ''email'' ok_signal]
         (snd first_save))) ! 0
     = Fulfilled \<lparr> success = True, status = ''timeout'', error = None,
                   message = Some ''Operation timed out after 100ms'', effects = None \<rparr>
   \<and> complete ''save'' ok_signal
        (elapse 1 (run sample_JSON_parse [Elapse 99, Signal ''email'' ok_signal] (snd first_save)))
     = elapse 1 (run sample_JSON_parse [Elapse 99, Signal ''email'' ok_signal] (snd first_save))
   \<and> triggerAction (document shop_runtime) [0, 0] save_node fill_action
     = Inl ''Element is not a fillable input element''
   \<and> fst refused_save = 0
   \<and> promises (snd refused_save) ! 0
     = Fulfilled \<lparr> success = False, status = ''error'',
                   error = Some ''Action execution failed: Element is not a fillable input element'',
                   message = None, effects = None \<rparr>
   \<and> timers (snd refused_save) = []
   \<and> map_of (pendingOperations (snd refused_save)) ''save'' = None
   \<and> promises (elapse 100 (run sample_JSON_parse [Signal ''save'' ok_signal] (snd refused_save))) ! 0
     = Fulfilled \<lparr> success = False, status = ''error'',
                   error = Some ''Action execution failed: Element is not a fillable input element'',
                   message = None, effects = None \<rparr>"
proof -
  let ?evs = "[Elapse 99, Signal ''email'' ok_signal]"
  let ?s2 = "run sample_JSON_parse ?evs (snd first_save)"
  have quiet: "\<forall>r. Signal ''save'' r \<notin> set ?evs"
    by simp
  have late: "now shop_runtime + effective_timeout (within 100) \<le> now (elapse 1 ?s2)"
    by code_simp
  have p: "fst first_save = 0"
    by code_simp
  have pend: "promises ?s2 ! fst first_save = Pending"
    by code_simp
  have dec: "decimal (effective_timeout (within 100)) = ''100''"
    by code_simp
  from C2_timeout [OF shop_reached shop_save_registered shop_save_enabled shop_save_found
      shop_save_async first_save_pair refl refl,
      where evs = ?evs and dt = 1 and r = ok_signal
        and doc' = "executeClick [0, 0] (document shop_runtime)"]
    shop_save_click quiet late pend
  have A: "promises (elapse 1 ?s2) ! fst first_save
           = Fulfilled \<lparr> success = True, status = ''timeout'', error = None,
                         message = Some (''Operation timed out after ''
                                     @ decimal (effective_timeout (within 100)) @ ''ms''),
                         effects = None \<rparr>
       \<and> complete ''save'' ok_signal (elapse 1 ?s2) = elapse 1 ?s2"
    by blast
  have q: "fst refused_save = 0"
    by code_simp
  have tm: "timers shop_runtime = []"
    by (simp add: shop_runtime_def runtime_new_def)
  let ?s3 = "elapse 100 (run sample_JSON_parse [Signal ''save'' ok_signal] (snd refused_save))"
  from C2_timeout [OF shop_reached shop_save_registered shop_save_enabled shop_save_found
      shop_save_async refused_save_pair refl refl,
      where evs = "[Signal ''save'' ok_signal]" and dt = 100
        and e = "''Element is not a fillable input element''"]
    shop_save_fill
  have B: "promises (snd refused_save) ! fst refused_save
           = Fulfilled \<lparr> success = False, status = ''error'',
                         error = Some (''Action execution failed: ''
                                   @ ''Element is not a fillable input element''),
                         message = None, effects = None \<rparr>
       \<and> timers (snd refused_save) = timers shop_runtime
       \<and> map_of (pendingOperations (snd refused_save)) ''save'' = None
       \<and> promises ?s3 ! fst refused_save = promises (snd refused_save) ! fst refused_save"
    by blast
  from A p shop_save_async
  have A': "tracking_of sample_JSON_parse save_node = ''async''
   \<and> fst first_save = 0
   \<and> promises (elapse 1 ?s2) ! 0
     = Fulfilled \<lparr> success = True, status = ''timeout'', error = None,
                   message = Some ''Operation timed out after 100ms'', effects = None \<rparr>
   \<and> complete ''save'' ok_signal (elapse 1 ?s2) = elapse 1 ?s2"
    unfolding dec by simp
  from B q tm shop_save_fill
  have B': "triggerAction (document shop_runtime) [0, 0] save_node fill_action
     = Inl ''Element is not a fillable input element''
   \<and> fst refused_save = 0
   \<and> promises (snd refused_save) ! 0
     = Fulfilled \<lparr> success = False, status = ''error'',
                   error = Some ''Action execution failed: Element is not a fillable input element'',
                   message = None, effects = None \<rparr>
   \<and> timers (snd refused_save) = []
   \<and> map_of (pendingOperations (snd refused_save)) ''save'' = None
   \<and> promises ?s3 ! 0
     = Fulfilled \<lparr> success = False, status = ''error'',
                   error = Some ''Action execution failed: Element is not a fillable input element'',
                   message = None, effects = None \<rparr>"
    by simp
  from A' B' show ?thesis by blast
qed

text \<open>
  The claim as stated fails when the native dispatch throws: a \<open>fill\<close> on the async
  button settles at once with success false and status \<open>error\<close>, leaves no timer behind,
  and stays so after the timeout has elapsed with no completion signal.
\<close>

theorem C2_timeout_counterexample:
  "tracking_of sample_JSON_parse save_node = ''async''
   \<and> promises (run sample_JSON_parse [Interact ''save'' fill_action (within 100), Elapse 100]
        shop_runtime)
     = [Fulfilled \<lparr> success = False, status = ''error'',
                      error = Some ''Action execution failed: Element is not a fillable input element'',
                      message = None, effects = None \<rparr>]
   \<and> timers (run sample_JSON_parse [Interact ''save'' fill_action (within 100)] shop_runtime) = []"
  by code_simp

text \<open>
  C3. A completion signal for an identifier with no pending operation leaves the whole
  state as it is: the pending-operation map, the timers and every promise. The model has
  no error path for \<open>complete\<close>.
\<close>

theorem C3_complete_without_pending:
  assumes "map_of (pendingOperations s) elementId = None"
  shows "complete elementId result s = s"
  using assms by (simp add: complete_def)

theorem C3_complete_without_pending_witness:
  "map_of (pendingOperations shop_runtime) ''save'' = None
   \<and> complete ''save'' ok_signal shop_runtime = shop_runtime"
proof -
  have h: "map_of (pendingOperations shop_runtime) ''save'' = None"
    by (simp add: shop_runtime_def runtime_new_def)
  from h C3_complete_without_pending [OF h, of ok_signal] show ?thesis by (rule conjI)
qed

text \<open>
  C4. For a registered element flagged disabled, \<open>execute\<close> returns a promise fulfilled
  with success false and status \<open>error\<close>; the error text is \<open>Element is disabled: \<close>
  followed by the disabled-reason text when there is one and by the identifier otherwise.
  The document (tree and dispatch log), the pending-operation map and the timers are
  unchanged.
\<close>

theorem C4_disabled_element:
  assumes reg: "registry_get (registry s) ident = Some sidElement"
    and dis: "sid_disabled sidElement"
    and ex: "execute P ident action opts s = (p, s')"
  shows "promises s' ! p
           = Fulfilled \<lparr> success = False, status = ''error'',
                         error = Some (''Element is disabled: ''
                                   @ (case truthy (sid_disabledDescription sidElement) of
                                        Some d \<Rightarrow> d | None \<Rightarrow> ident)),
                         message = None, effects = None \<rparr>
       \<and> document s' = document s
       \<and> pendingOperations s' = pendingOperations s
       \<and> timers s' = timers s"
  using assms
  by (auto simp: execute_def return_result_def error_result_def split: option.splits)

theorem C4_disabled_element_witness:
  "registry_get (registry shop_runtime) ''locked'' = Some locked_element
   \<and> sid_disabled locked_element
   \<and> promises (snd (execute sample_JSON_parse ''locked'' click_action (within 100) shop_runtime))
         ! fst (execute sample_JSON_parse ''locked'' click_action (within 100) shop_runtime)
       = Fulfilled \<lparr> success = False, status = ''error'',
                     error = Some ''Element is disabled: locked'', message = None, effects = None \<rparr>
   \<and> document (snd (execute sample_JSON_parse ''locked'' click_action (within 100) shop_runtime))
       = document shop_runtime
   \<and> pendingOperations (snd (execute sample_JSON_parse ''locked'' click_action (within 100) shop_runtime))
       = pendingOperations shop_runtime"
proof -
  have reg: "registry_get (registry shop_runtime) ''locked'' = Some locked_element"
    by code_simp
  have dis: "sid_disabled locked_element"
    by (simp add: locked_element_def)
  have ex: "execute sample_JSON_parse ''locked'' click_action (within 100) shop_runtime
      = (fst (execute sample_JSON_parse ''locked'' click_action (within 100) shop_runtime),
         snd (execute sample_JSON_parse ''locked'' click_action (within 100) shop_runtime))"
    by simp
  have dtext: "(case truthy (sid_disabledDescription locked_element) of Some d \<Rightarrow> d | None \<Rightarrow> ''locked'')
      = ''locked''"
    by (simp add: locked_element_def truthy_def)
  from C4_disabled_element [OF reg dis ex] reg dis show ?thesis
    unfolding dtext by simp
qed

text \<open>
  C5 (as amended). The promise \<open>execute\<close> returns is never rejected: the only call of
  the source that can throw is the native action, and each branch catches it and returns
  an error result. An identifier that
  is not registered gives the error \<open>Element not found\<close>, whatever else holds; a
  registered, enabled element whose selector matches no element of the document gives
  \<open>Element not found in DOM\<close>. In both cases the document, the pending-operation map
  and the timers are unchanged.

  For a registered, enabled element whose selector matches one element or several, the
  native action runs on the first match in document order. When it does not throw, the
  document after the call is the one it produced and the promise is pending or fulfilled
  with success true; when it throws, the document is unchanged and the promise is
  fulfilled with the error \<open>Action execution failed\<close> followed by what was thrown. So
  several matches never give \<open>Element not found in DOM\<close>.
\<close>

theorem C5_preconditions:
  assumes ex: "execute P ident action opts s = (p, s')"
  shows "(registry_get (registry s) ident = None \<longrightarrow>
            promises s' ! p = Fulfilled (error_result (''Element not found: '' @ ident))
            \<and> document s' = document s \<and> pendingOperations s' = pendingOperations s
            \<and> timers s' = timers s)
       \<and> (registry_get (registry s) ident = Some sidElement \<and> \<not> sid_disabled sidElement
            \<and> querySelector (document s) (sid_selector sidElement) = None \<longrightarrow>
            promises s' ! p = Fulfilled (error_result (''Element not found in DOM: '' @ ident))
            \<and> document s' = document s \<and> pendingOperations s' = pendingOperations s
            \<and> timers s' = timers s)
       \<and> (registry_get (registry s) ident = Some sidElement \<and> \<not> sid_disabled sidElement
            \<and> querySelectorAll (document s) (sid_selector sidElement) = (el, domElement) # rest \<longrightarrow>
            (triggerAction (document s) el domElement action = Inr doc' \<longrightarrow>
               document s' = doc'
               \<and> (promises s' ! p = Pending
                    \<or> (\<exists>x. promises s' ! p = Fulfilled x \<and> success x)))
            \<and> (triggerAction (document s) el domElement action = Inl e \<longrightarrow>
               document s' = document s
               \<and> promises s' ! p
                   = Fulfilled (error_result (''Action execution failed: '' @ e))))
       \<and> p < length (promises s')
       \<and> (\<forall>e. promises s' ! p \<noteq> Rejected e)"
proof -
  from execute_fields [OF ex] have p: "p = length (promises s)"
    and sh: "(\<exists>x. promises s' = promises s @ [Fulfilled x]) \<or> promises s' = promises s @ [Pending]"
    by auto
  from sh p have a: "p < length (promises s') \<and> (\<forall>e. promises s' ! p \<noteq> Rejected e)" by auto
  have b: "registry_get (registry s) ident = None \<longrightarrow>
            promises s' ! p = Fulfilled (error_result (''Element not found: '' @ ident))
            \<and> document s' = document s \<and> pendingOperations s' = pendingOperations s
            \<and> timers s' = timers s"
    using ex by (auto simp: execute_def return_result_def)
  have c: "registry_get (registry s) ident = Some sidElement \<and> \<not> sid_disabled sidElement
            \<and> querySelector (document s) (sid_selector sidElement) = None \<longrightarrow>
            promises s' ! p = Fulfilled (error_result (''Element not found in DOM: '' @ ident))
            \<and> document s' = document s \<and> pendingOperations s' = pendingOperations s
            \<and> timers s' = timers s"
    using ex by (auto simp: execute_def return_result_def)
  have d: "registry_get (registry s) ident = Some sidElement \<and> \<not> sid_disabled sidElement
            \<and> querySelectorAll (document s) (sid_selector sidElement) = (el, domElement) # rest \<longrightarrow>
            (triggerAction (document s) el domElement action = Inr doc' \<longrightarrow>
               document s' = doc'
               \<and> (promises s' ! p = Pending
                    \<or> (\<exists>x. promises s' ! p = Fulfilled x \<and> success x)))
            \<and> (triggerAction (document s) el domElement action = Inl e \<longrightarrow>
               document s' = document s
               \<and> promises s' ! p
                   = Fulfilled (error_result (''Action execution failed: '' @ e)))"
  proof
    assume h: "registry_get (registry s) ident = Some sidElement \<and> \<not> sid_disabled sidElement
            \<and> querySelectorAll (document s) (sid_selector sidElement) = (el, domElement) # rest"
    then have reg: "registry_get (registry s) ident = Some sidElement"
      and en: "\<not> sid_disabled sidElement"
      and all: "querySelectorAll (document s) (sid_selector sidElement) = (el, domElement) # rest"
      by blast+
    from execute_first_match [OF reg en all ex, of doc' e]
    show "(triggerAction (document s) el domElement action = Inr doc' \<longrightarrow>
               document s' = doc'
               \<and> (promises s' ! p = Pending
                    \<or> (\<exists>x. promises s' ! p = Fulfilled x \<and> success x)))
            \<and> (triggerAction (document s) el domElement action = Inl e \<longrightarrow>
               document s' = document s
               \<and> promises s' ! p
                   = Fulfilled (error_result (''Action execution failed: '' @ e)))"
      by (simp add: failed_result_def)
  qed
  from a b c d show ?thesis by blast
qed

theorem C5_preconditions_witness:
  "registry_get (registry shop_runtime) ''nope'' = None
   \<and> promises (snd (execute sample_JSON_parse ''nope'' click_action (within 100) shop_runtime))
         ! fst (execute sample_JSON_parse ''nope'' click_action (within 100) shop_runtime)
       = Fulfilled (error_result ''Element not found: nope'')
   \<and> registry_get (registry stale_runtime) ''save'' = Some save_element
   \<and> querySelector (document stale_runtime) (sid_selector save_element) = None
   \<and> promises (snd (execute sample_JSON_parse ''save'' click_action (within 100) stale_runtime))
         ! fst (execute sample_JSON_parse ''save'' click_action (within 100) stale_runtime)
       = Fulfilled (error_result ''Element not found in DOM: save'')
   \<and> document (snd (execute sample_JSON_parse ''save'' click_action (within 100) stale_runtime))
       = document stale_runtime
   \<and> registry_get (registry twin_runtime) ''go'' = Some go_element
   \<and> querySelectorAll (document twin_runtime) (sid_selector go_element)
       = [([0, 0], go_node), ([0, 1], go_node)]
   \<and> document (snd (execute sample_JSON_parse ''go'' click_action (within 100) twin_runtime))
       = executeClick [0, 0] (document twin_runtime)"
proof -
  have a: "registry_get (registry shop_runtime) ''nope'' = None" by code_simp
  have ex1: "execute sample_JSON_parse ''nope'' click_action (within 100) shop_runtime
      = (fst (execute sample_JSON_parse ''nope'' click_action (within 100) shop_runtime),
         snd (execute sample_JSON_parse ''nope'' click_action (within 100) shop_runtime))"
    by simp
  have b: "registry_get (registry stale_runtime) ''save'' = Some save_element" by code_simp
  have c: "\<not> sid_disabled save_element" by (simp add: save_element_def)
  have d: "querySelector (document stale_runtime) (sid_selector save_element) = None" by code_simp
  have ex2: "execute sample_JSON_parse ''save'' click_action (within 100) stale_runtime
      = (fst (execute sample_JSON_parse ''save'' click_action (within 100) stale_runtime),
         snd (execute sample_JSON_parse ''save'' click_action (within 100) stale_runtime))"
    by simp
  have ex3: "execute sample_JSON_parse ''go'' click_action (within 100) twin_runtime
      = (fst (execute sample_JSON_parse ''go'' click_action (within 100) twin_runtime),
         snd (execute sample_JSON_parse ''go'' click_action (within 100) twin_runtime))"
    by simp
  from C5_preconditions [OF ex1, of save_element] a
  have r1: "promises (snd (execute sample_JSON_parse ''nope'' click_action (within 100) shop_runtime))
         ! fst (execute sample_JSON_parse ''nope'' click_action (within 100) shop_runtime)
       = Fulfilled (error_result (''Element not found: '' @ ''nope''))"
    by blast
  from C5_preconditions [OF ex2, of save_element] b c d
  have r2: "promises (snd (execute sample_JSON_parse ''save'' click_action (within 100) stale_runtime))
         ! fst (execute sample_JSON_parse ''save'' click_action (within 100) stale_runtime)
       = Fulfilled (error_result (''Element not found in DOM: '' @ ''save''))
     \<and> document (snd (execute sample_JSON_parse ''save'' click_action (within 100) stale_runtime))
       = document stale_runtime"
    by blast
  from C5_preconditions [OF ex3,
      where sidElement = go_element and el = "[0, 0]" and domElement = go_node
        and rest = "[([0, 1], go_node)]"
        and doc' = "executeClick [0, 0] (document twin_runtime)"]
    twin_go_registered twin_go_enabled twin_go_found twin_go_click
  have r3: "document (snd (execute sample_JSON_parse ''go'' click_action (within 100) twin_runtime))
       = executeClick [0, 0] (document twin_runtime)"
    by blast
  from twin_go_found
  have e: "querySelectorAll (document twin_runtime) (sid_selector go_element)
       = [([0, 0], go_node), ([0, 1], go_node)]"
    by simp
  from a b d r1 r2 r3 e twin_go_registered show ?thesis by simp
qed

text \<open>
  The claim as stated asks for the error whenever the locator does not resolve to exactly
  one node. Where two elements carry the identifier, \<open>querySelector\<close> returns the first
  in document order and the action is dispatched on it.
\<close>

theorem C5_twin_nodes_counterexample:
  "map (\<lambda>e. (sid_selector e, sid_disabled e)) (getAll (registry twin_runtime))
     = [(AttrEquals ''data-sid'' ''go'', False)]
   \<and> map fst (querySelectorAll (document twin_runtime) (AttrEquals ''data-sid'' ''go''))
     = [[0, 0], [0, 1]]
   \<and> promises (snd (execute sample_JSON_parse ''go'' click_action (within 100) twin_runtime))
     = [Fulfilled \<lparr> success = True, status = ''completed'', error = None,
                      message = Some ''click executed on go'', effects = None \<rparr>]
   \<and> dispatched (document (snd (execute sample_JSON_parse ''go'' click_action (within 100) twin_runtime)))
     = [([0, 0], ''click'', True, True)]"
  by code_simp

text \<open>
  C8 (as amended). In a state reached by any history of events, while a tracked call on
  an identifier is unsettled (whatever happened since it was made), a second tracked call
  on the same identifier replaces the pending-operation entry by its own. From then
  on a completion signal settles the second call and leaves the first pending; no
  completion signal ever settles the first call. Its timer, however, stays active: the
  first promise is either pending or fulfilled with \<open>timeout\<close>, and it is fulfilled with
  \<open>timeout\<close> as soon as the clock has passed the first call's start by its timeout.
\<close>

theorem C8_second_interaction:
  assumes reach: "s = run P history (runtime_new registry0 document0)"
    and reg: "registry_get (registry s) ident = Some sidElement"
    and en: "\<not> sid_disabled sidElement"
    and dom: "querySelector (document s) (sid_selector sidElement) = Some (el, domElement)"
    and tr: "tracking_of P domElement = ''async''"
    and disp: "triggerAction (document s) el domElement action = Inr doc'"
    and ex: "execute P ident action opts s = (p1, s1)"
    and sm: "sm = run P evs s1"
    and unsettled: "promises sm ! p1 = Pending"
    and reg2: "registry_get (registry sm) ident = Some sidElement2"
    and en2: "\<not> sid_disabled sidElement2"
    and dom2: "querySelector (document sm) (sid_selector sidElement2) = Some (el2, domElement2)"
    and tr2: "tracking_of P domElement2 = ''async''"
    and disp2: "triggerAction (document sm) el2 domElement2 action2 = Inr doc2"
    and ex2: "execute P ident action2 opts2 sm = (p2, s2)"
  shows "map_of (pendingOperations s2) ident
           = Some \<lparr> resolve = Resolver (next_timer sm) ident p2, timeoutId = next_timer sm \<rparr>
       \<and> p2 \<noteq> p1
       \<and> promises (complete ident r s2) ! p1 = Pending
       \<and> promises (complete ident r s2) ! p2
           = Fulfilled \<lparr> success = True, status = cr_status r, error = None,
                         message = cr_message r, effects = cr_effects r \<rparr>
       \<and> (\<forall>evs'. promises (run P evs' s2) ! p1 = Pending
                 \<or> promises (run P evs' s2) ! p1 = Fulfilled (timeout_result (effective_timeout opts)))
       \<and> (\<forall>evs' dt. now s + effective_timeout opts \<le> now (run P evs' s2) + dt \<longrightarrow>
             promises (elapse dt (run P evs' s2)) ! p1
               = Fulfilled (timeout_result (effective_timeout opts)))"
proof -
  have c: "consistent s"
    unfolding reach by (rule consistent_run [OF consistent_new])
  let ?tid = "next_timer s" and ?dl = "now s + effective_timeout opts"
  let ?tmo = "effective_timeout opts"
  from execute_async_waiting [OF c reg en dom tr disp ex]
  have c1: "consistent s1" and w1: "waiting s1 ?tid ?dl ident p1 ?tmo" by blast+
  have cm: "consistent sm" unfolding sm by (rule consistent_run [OF c1])
  from call_run_any [OF c1, of ?tid ?dl ident p1 ?tmo P evs] w1 unsettled
  have wm: "waiting sm ?tid ?dl ident p1 ?tmo" by (simp add: sm)
  from waiting_pending [OF cm wm] have ltm: "p1 < length (promises sm)" by simp
  from execute_async_waiting [OF cm reg2 en2 dom2 tr2 disp2 ex2]
  have c2: "consistent s2"
    and e2: "map_of (pendingOperations s2) ident
               = Some \<lparr> resolve = Resolver (next_timer sm) ident p2, timeoutId = next_timer sm \<rparr>"
    and p2: "p2 = length (promises sm)" and lt2: "p2 < length (promises s2)"
    by blast+
  from p2 ltm have ne: "p2 \<noteq> p1" by simp
  from waiting_execute [OF cm wm, of P ident action2 opts2] ex2
  have w2: "waiting s2 ?tid ?dl ident p1 ?tmo" by simp
  have n2: "\<forall>j. \<not> resolves s2 j p1"
  proof (intro allI)
    fix j show "\<not> resolves s2 j p1"
    proof (cases "j = ident")
      case True
      then show ?thesis using e2 ne by (auto simp: resolves_def)
    next
      case False
      then show ?thesis using not_resolves_elsewhere [OF c2 _ False] w2 by blast
    qed
  qed
  from complete_fields [OF c2 e2, of r] obtain q where
    "Resolver (next_timer sm) ident p2 = Resolver (next_timer sm) ident q"
    and pr: "promises (complete ident r s2) = (promises s2)[q := Fulfilled (completed_result r)]"
    by auto
  then have pr2: "promises (complete ident r s2) = (promises s2)[p2 := Fulfilled (completed_result r)]"
    by simp
  from waiting_pending [OF c2 w2] have pend1: "promises s2 ! p1 = Pending" by simp
  have a: "promises (complete ident r s2) ! p1 = Pending"
    using pr2 ne pend1 by simp
  have b: "promises (complete ident r s2) ! p2 = Fulfilled (completed_result r)"
    using pr2 lt2 by simp
  have orphan: "\<And>evs'. consistent (run P evs' s2)
       \<and> (waiting (run P evs' s2) ?tid ?dl ident p1 ?tmo \<or> timed_out (run P evs' s2) p1 ?tmo)"
    using orphan_run [OF c2 _ n2] w2 by blast
  have d: "\<forall>evs'. promises (run P evs' s2) ! p1 = Pending
                 \<or> promises (run P evs' s2) ! p1 = Fulfilled (timeout_result ?tmo)"
  proof
    fix evs'
    from orphan [of evs'] waiting_pending [of "run P evs' s2" ?tid ?dl ident p1 ?tmo]
    show "promises (run P evs' s2) ! p1 = Pending
                 \<or> promises (run P evs' s2) ! p1 = Fulfilled (timeout_result ?tmo)"
      by (auto simp: timed_out_def)
  qed
  have f: "\<forall>evs' dt. ?dl \<le> now (run P evs' s2) + dt \<longrightarrow>
             promises (elapse dt (run P evs' s2)) ! p1 = Fulfilled (timeout_result ?tmo)"
  proof (intro allI impI)
    fix evs' dt assume l: "?dl \<le> now (run P evs' s2) + dt"
    from orphan [of evs'] have co: "consistent (run P evs' s2)"
      and ko: "waiting (run P evs' s2) ?tid ?dl ident p1 ?tmo \<or> timed_out (run P evs' s2) p1 ?tmo"
      by blast+
    from elapse_call [OF co ko, of dt] l
    show "promises (elapse dt (run P evs' s2)) ! p1 = Fulfilled (timeout_result ?tmo)"
      by (simp add: timed_out_def)
  qed
  from e2 ne a b d f show ?thesis by (simp add: completed_result_def)
qed

theorem C8_second_interaction_witness:
  "fst first_save = 0 \<and> fst second_save = 1
   \<and> map_of (pendingOperations (snd second_save)) ''save''
       = Some \<lparr> resolve = Resolver 1 ''save'' 1, timeoutId = 1 \<rparr>
   \<and> promises (complete ''save'' ok_signal (snd second_save)) ! 0 = Pending
   \<and> promises (elapse 50 (snd second_save)) ! 0
       = Fulfilled \<lparr> success = True, status = ''timeout'', error = None,
                     message = Some ''Operation timed out after 100ms'', effects = None \<rparr>"
proof -
  let ?sm = "run sample_JSON_parse [Elapse 50] (snd first_save)"
  have p1: "fst first_save = 0" by code_simp
  have p2: "fst second_save = 1" by code_simp
  have nt: "next_timer ?sm = 1" by code_simp
  have unsettled: "promises ?sm ! fst first_save = Pending" by code_simp
  have reg2: "registry_get (registry ?sm) ''save'' = Some save_element" by code_simp
  have dom2: "querySelector (document ?sm) (sid_selector save_element) = Some ([0, 0], save_node)"
    by code_simp
  have disp2: "triggerAction (document ?sm) [0, 0] save_node click_action
      = Inr (executeClick [0, 0] (document ?sm))"
    by code_simp
  have late: "now shop_runtime + effective_timeout (within 100)
      \<le> now (run sample_JSON_parse [] (snd second_save)) + 50"
    by code_simp
  have tr: "timeout_result (effective_timeout (within 100))
      = \<lparr> success = True, status = ''timeout'', error = None,
          message = Some ''Operation timed out after 100ms'', effects = None \<rparr>"
    by code_simp
  from C8_second_interaction [OF shop_reached shop_save_registered shop_save_enabled
      shop_save_found shop_save_async shop_save_click first_save_pair refl unsettled
      reg2 shop_save_enabled dom2 shop_save_async disp2 second_save_pair, of ok_signal]
  have a: "map_of (pendingOperations (snd second_save)) ''save''
           = Some \<lparr> resolve = Resolver (next_timer ?sm) ''save'' (fst second_save),
                    timeoutId = next_timer ?sm \<rparr>"
    and b: "promises (complete ''save'' ok_signal (snd second_save)) ! fst first_save = Pending"
    and c: "\<forall>evs' dt. now shop_runtime + effective_timeout (within 100)
                \<le> now (run sample_JSON_parse evs' (snd second_save)) + dt \<longrightarrow>
             promises (elapse dt (run sample_JSON_parse evs' (snd second_save))) ! fst first_save
               = Fulfilled (timeout_result (effective_timeout (within 100)))"
    by blast+
  from c late have "promises (elapse 50 (run sample_JSON_parse [] (snd second_save))) ! fst first_save
               = Fulfilled (timeout_result (effective_timeout (within 100)))"
    by blast
  then have d: "promises (elapse 50 (snd second_save)) ! 0
       = Fulfilled \<lparr> success = True, status = ''timeout'', error = None,
                     message = Some ''Operation timed out after 100ms'', effects = None \<rparr>"
    unfolding tr p1 by (simp add: run_def)
  from a b d p1 p2 nt show ?thesis by simp
qed

text \<open>
  The claim as stated says the first promise never settles. It does: 50 ms after the
  second call the first call's timer fires and fulfils the first promise with
  \<open>timeout\<close>; the same callback removes the entry of the second call, which is still
  pending.
\<close>

theorem C8_first_promise_settles_counterexample:
  "fst first_save = 0 \<and> fst second_save = 1
   \<and> promises (snd second_save) = [Pending, Pending]
   \<and> promises (elapse 50 (snd second_save))
       = [Fulfilled \<lparr> success = True, status = ''timeout'', error = None,
                        message = Some ''Operation timed out after 100ms'', effects = None \<rparr>,
          Pending]
   \<and> map_of (pendingOperations (elapse 50 (snd second_save))) ''save'' = None"
  by code_simp

end
